theory Spec2Isabelle
  imports Complex_Main "HOL-Library.AList"
begin

section \<open>Python values, containers and failures\<close>

text \<open>
  The two modules are Python 2.7. Floating-point numbers are idealised as exact reals
  (type \<open>real\<close>): rounding is outside this development. Python integers are \<open>int\<close>.
  Every exception the modelled code can raise is a value of type \<open>error\<close>, and a
  function that can raise returns \<open>error + 'a\<close> with \<open>Inl\<close> for the exception.
\<close>

datatype error = IndexError | KeyError | ValueError | AssertionError | ZeroDivisionError

text \<open>\<open>xs[i]\<close>: a negative index counts from the end, an index out of range raises.\<close>

definition py_get :: "'a list \<Rightarrow> int \<Rightarrow> error + 'a" where
  "py_get xs i =
     (if 0 \<le> i \<and> i < int (length xs) then Inr (xs ! nat i)
      else if i < 0 \<and> - int (length xs) \<le> i then Inr (xs ! nat (int (length xs) + i))
      else Inl IndexError)"

text \<open>The builtins \<open>max\<close> and \<open>min\<close> on a sequence: \<open>ValueError\<close> on the empty one.\<close>

fun py_max :: "'a::linorder list \<Rightarrow> error + 'a" where
  "py_max [] = Inl ValueError"
| "py_max (x # xs) = Inr (fold max xs x)"

fun py_min :: "'a::linorder list \<Rightarrow> error + 'a" where
  "py_min [] = Inl ValueError"
| "py_min (x # xs) = Inr (fold min xs x)"

text \<open>
  A dictionary is an association list with distinct keys; the order of the list is the
  order in which the dictionary is iterated. Assigning to a key that is present replaces
  its value in place, assigning to a new key appends it (\<open>AList.update\<close>). Python 2
  iterates a dictionary in an order of its own; nothing proved below depends on the order.
\<close>

type_synonym count_dict = "(int \<times> int) list"
type_synonym count_table = "(real \<times> count_dict) list"

definition wf_table :: "count_table \<Rightarrow> bool" where
  "wf_table ct \<longleftrightarrow> distinct (map fst ct) \<and> list_all (\<lambda>(t, cd). distinct (map fst cd)) ct"

text \<open>
  \<open>count_dict[k]\<close> on a \<open>defaultdict(int)\<close>: a missing key is inserted with the value
  \<open>0\<close> by the read itself, so the read returns the dictionary as well.
\<close>

definition dd_get :: "count_dict \<Rightarrow> int \<Rightarrow> count_dict \<times> int" where
  "dd_get d k = (case map_of d k of Some v \<Rightarrow> (d, v) | None \<Rightarrow> (d @ [(k, 0)], 0))"

section \<open>OccupancyCounter: \<open>regex_counter\<close>\<close>

text \<open>
  \<open>count_totals[traj_id][regex_state] += 1\<close> on a \<open>defaultdict\<close> of
  \<open>defaultdict(int)\<close>: both levels are created when missing.
\<close>

definition count_incr :: "count_table \<Rightarrow> real \<Rightarrow> int \<Rightarrow> count_table" where
  "count_incr count_totals traj_id regex_state =
     (let count_dict = (case map_of count_totals traj_id of None \<Rightarrow> [] | Some d \<Rightarrow> d);
          (count_dict1, v) = dd_get count_dict regex_state
      in AList.update traj_id (AList.update regex_state (v + 1) count_dict1) count_totals)"

text \<open>The loop of \<open>regex_counter\<close> over the zipped rows and state-ids.\<close>

fun regex_counter_loop :: "count_table \<Rightarrow> (real list \<times> int) list \<Rightarrow> int \<Rightarrow> error + count_table" where
  "regex_counter_loop count_totals [] traj_col = Inr count_totals"
| "regex_counter_loop count_totals ((line, regex_state) # rest) traj_col =
     (case py_get line traj_col of
        Inl e \<Rightarrow> Inl e
      | Inr traj_id \<Rightarrow> regex_counter_loop (count_incr count_totals traj_id regex_state) rest traj_col)"

text \<open>The count table \<open>regex_counter\<close> has built when it calls \<open>count_totals_to_percents\<close>.\<close>

definition regex_counter_totals :: "real list list \<Rightarrow> (string \<times> int) list \<Rightarrow> int \<Rightarrow> error + count_table" where
  "regex_counter_totals data_floats data_regex traj_col =
     (let data_regex_ids = map snd data_regex
      in regex_counter_loop [] (zip data_floats data_regex_ids) traj_col)"

section \<open>PercentAggregator: \<open>count_totals_to_percents\<close>\<close>

text \<open>
  An emitted row is \<open>[traj_id, p_0, ..., p_max, average]\<close>, or the same layout under the
  tag \<open>"MEAN"\<close> or \<open>"STDERR"\<close>. The standard error of a single sample is \<open>nan\<close>,
  here \<open>None\<close>.
\<close>

datatype row = TrajRow real "real list" | MeanRow "real list" | StderrRow "real option list"

text \<open>\<open>numpy.mean\<close> and \<open>scipy.stats.sem\<close> (sample standard deviation over \<open>sqrt n\<close>).\<close>

definition mean :: "real list \<Rightarrow> real" where
  "mean xs = sum_list xs / real (length xs)"

definition sem :: "real list \<Rightarrow> real option" where
  "sem xs =
     (let n = length xs
      in if n < 2 then None
         else Some (sqrt (sum_list (map (\<lambda>x. (x - mean xs)\<^sup>2) xs) / real (n - 1)) / sqrt (real n)))"

text \<open>
  The loop over \<open>range(max_ions+1)\<close> for one trajectory. \<open>temp_line\<close> holds the
  entries after the trajectory identifier. The read \<open>count_dict[traj_index]\<close> comes
  before the division, so the dictionary is returned also when the division raises.
\<close>

fun percent_loop ::
  "int list \<Rightarrow> count_dict \<Rightarrow> real \<Rightarrow> real list \<Rightarrow> (int \<Rightarrow> real list)
     \<Rightarrow> count_dict \<times> (error + real list \<times> (int \<Rightarrow> real list))" where
  "percent_loop [] count_dict traj_total_lines temp_line traj_occ_averages =
     (count_dict, Inr (temp_line, traj_occ_averages))"
| "percent_loop (traj_index # rest) count_dict traj_total_lines temp_line traj_occ_averages =
     (case dd_get count_dict traj_index of
        (count_dict1, c) \<Rightarrow>
          if traj_total_lines = 0 then (count_dict1, Inl ZeroDivisionError)
          else
            (let temp_percent = real_of_int c / traj_total_lines
             in percent_loop rest count_dict1 traj_total_lines (temp_line @ [temp_percent])
                  (traj_occ_averages(traj_index := traj_occ_averages traj_index @ [temp_percent]))))"

text \<open>The weighted average of one row: the loop over \<open>zip(temp_line[1:], num_ions_map)\<close>.\<close>

definition weighted_average :: "real list \<Rightarrow> int list \<Rightarrow> real" where
  "weighted_average temp_line num_ions_map =
     fold (\<lambda>(occupancy, ion_count) temp_average. temp_average + occupancy * real_of_int ion_count)
       (zip temp_line num_ions_map) 0"

text \<open>The loop over \<open>count_totals.iteritems()\<close>; it returns the table with the inner
  dictionaries as the reads have left them.\<close>

fun traj_loop ::
  "int \<Rightarrow> int list \<Rightarrow> count_table \<Rightarrow> row list \<Rightarrow> (int \<Rightarrow> real list)
     \<Rightarrow> count_table \<times> (error + row list \<times> (int \<Rightarrow> real list))" where
  "traj_loop max_ions num_ions_map [] traj_total_percent traj_occ_averages =
     ([], Inr (traj_total_percent, traj_occ_averages))"
| "traj_loop max_ions num_ions_map ((traj_id, count_dict) # rest) traj_total_percent traj_occ_averages =
     (let traj_total_lines = real_of_int (sum_list (map snd count_dict))
      in case percent_loop [0..max_ions] count_dict traj_total_lines [] traj_occ_averages of
           (count_dict1, Inl e) \<Rightarrow> ((traj_id, count_dict1) # rest, Inl e)
         | (count_dict1, Inr (temp_line, averages1)) \<Rightarrow>
             (let temp_average = weighted_average temp_line num_ions_map
              in case traj_loop max_ions num_ions_map rest
                        (traj_total_percent @ [TrajRow traj_id (temp_line @ [temp_average])])
                        (averages1(max_ions + 1 := averages1 (max_ions + 1) @ [temp_average])) of
                   (rest1, r) \<Rightarrow> ((traj_id, count_dict1) # rest1, r)))"

text \<open>
  \<open>state_ids\<close> is the list the source takes the maximum of: every key of every inner
  dictionary. \<open>count_totals_to_percents\<close> returns the count table as it leaves it, and
  the rows or the exception. An empty \<open>num_ions_map\<close> is Python-false and is replaced by
  \<open>range(max_ions+1)\<close>; the \<open>assert\<close> is the configuration check.
\<close>

definition state_ids :: "count_table \<Rightarrow> int list" where
  "state_ids count_totals = concat (map (\<lambda>(traj_id, count_dict). map fst count_dict) count_totals)"

definition count_totals_to_percents :: "count_table \<Rightarrow> int list \<Rightarrow> count_table \<times> (error + row list)" where
  "count_totals_to_percents count_totals num_ions_map =
     (case py_max (state_ids count_totals) of
        Inl e \<Rightarrow> (count_totals, Inl e)
      | Inr max_ions \<Rightarrow>
          (let num_ions_map1 = (if num_ions_map = [] then [0..max_ions] else num_ions_map)
           in if int (length num_ions_map1) \<noteq> max_ions + 1 then (count_totals, Inl AssertionError)
              else
                (case traj_loop max_ions num_ions_map1 count_totals [] (\<lambda>i. []) of
                   (count_totals1, Inl e) \<Rightarrow> (count_totals1, Inl e)
                 | (count_totals1, Inr (traj_total_percent, traj_occ_averages)) \<Rightarrow>
                     (let mean_occupancy = map (\<lambda>i. mean (traj_occ_averages i)) [0..max_ions + 1];
                          stderr_occupancy = map (\<lambda>i. sem (traj_occ_averages i)) [0..max_ions + 1]
                      in (count_totals1,
                          Inr (traj_total_percent @ [MeanRow mean_occupancy, StderrRow stderr_occupancy]))))))"

definition regex_counter :: "real list list \<Rightarrow> (string \<times> int) list \<Rightarrow> int \<Rightarrow> int list \<Rightarrow> error + row list" where
  "regex_counter data_floats data_regex traj_col num_ions_map =
     (case regex_counter_totals data_floats data_regex traj_col of
        Inl e \<Rightarrow> Inl e
      | Inr count_totals \<Rightarrow> snd (count_totals_to_percents count_totals num_ions_map))"

section \<open>SeriesReshaper: \<open>compute_dihedral_timeseries\<close>\<close>

text \<open>
  The two results are dictionaries of dictionaries of lists, keyed by trajectory identifier
  and then by the position of the column in \<open>dihedral_cols\<close>. They are only looked up,
  never iterated, so they are maps.
\<close>

type_synonym series_map = "real \<rightharpoonup> (nat \<rightharpoonup> real list)"

text \<open>
  The body of the inner loop for one \<open>(res_id, col)\<close>. Reading
  \<open>dihedral_per_traj[traj_id]\<close> on the \<open>defaultdict(dict)\<close> gives the empty dictionary
  for a new trajectory; the assignment that follows stores the inner dictionary. In the
  \<open>else\<close> branch the time list is looked up before \<open>line[0]\<close> is read.
\<close>

definition series_step ::
  "real list \<Rightarrow> real \<Rightarrow> nat \<Rightarrow> int \<Rightarrow> series_map \<times> series_map \<Rightarrow> error + series_map \<times> series_map" where
  "series_step line traj_id res_id col st =
     (case st of (dihedral_per_traj, time_per_traj) \<Rightarrow>
        (let dihedrals = (case dihedral_per_traj traj_id of None \<Rightarrow> Map.empty | Some m \<Rightarrow> m);
             times = (case time_per_traj traj_id of None \<Rightarrow> Map.empty | Some m \<Rightarrow> m)
         in case dihedrals res_id of
              None \<Rightarrow>
                (case py_get line col of
                   Inl e \<Rightarrow> Inl e
                 | Inr v \<Rightarrow>
                     (case py_get line 0 of
                        Inl e \<Rightarrow> Inl e
                      | Inr tm \<Rightarrow>
                          Inr (dihedral_per_traj(traj_id \<mapsto> dihedrals(res_id \<mapsto> [v])),
                               time_per_traj(traj_id \<mapsto> times(res_id \<mapsto> [tm])))))
            | Some vs \<Rightarrow>
                (case py_get line col of
                   Inl e \<Rightarrow> Inl e
                 | Inr v \<Rightarrow>
                     (case times res_id of
                        None \<Rightarrow> Inl KeyError
                      | Some tms \<Rightarrow>
                          (case py_get line 0 of
                             Inl e \<Rightarrow> Inl e
                           | Inr tm \<Rightarrow>
                               Inr (dihedral_per_traj(traj_id \<mapsto> dihedrals(res_id \<mapsto> vs @ [v])),
                                    time_per_traj(traj_id \<mapsto> times(res_id \<mapsto> tms @ [tm]))))))))"

text \<open>The loop over \<open>enumerate(dihedral_cols)\<close> for one row.\<close>

fun series_cols ::
  "real list \<Rightarrow> real \<Rightarrow> (nat \<times> int) list \<Rightarrow> series_map \<times> series_map \<Rightarrow> error + series_map \<times> series_map" where
  "series_cols line traj_id [] st = Inr st"
| "series_cols line traj_id ((res_id, col) # rest) st =
     (case series_step line traj_id res_id col st of
        Inl e \<Rightarrow> Inl e
      | Inr st1 \<Rightarrow> series_cols line traj_id rest st1)"

text \<open>The loop over \<open>data_lines\<close>.\<close>

fun series_lines ::
  "real list list \<Rightarrow> int list \<Rightarrow> int \<Rightarrow> series_map \<times> series_map \<Rightarrow> error + series_map \<times> series_map" where
  "series_lines [] dihedral_cols traj_col st = Inr st"
| "series_lines (line # rest) dihedral_cols traj_col st =
     (case py_get line traj_col of
        Inl e \<Rightarrow> Inl e
      | Inr traj_id \<Rightarrow>
          (case series_cols line traj_id (enumerate 0 dihedral_cols) st of
             Inl e \<Rightarrow> Inl e
           | Inr st1 \<Rightarrow> series_lines rest dihedral_cols traj_col st1))"

definition compute_dihedral_timeseries ::
  "real list list \<Rightarrow> int list \<Rightarrow> int \<Rightarrow> error + series_map \<times> series_map" where
  "compute_dihedral_timeseries data_lines dihedral_cols traj_col =
     series_lines data_lines dihedral_cols traj_col (Map.empty, Map.empty)"

section \<open>HistogramBuilder: \<open>compute_rotamer_histogram\<close>\<close>

text \<open>\<open>[line[col] for col in cols]\<close>, and the loop that extends the pooled list with it.\<close>

fun get_cols :: "real list \<Rightarrow> int list \<Rightarrow> error + real list" where
  "get_cols line [] = Inr []"
| "get_cols line (col # cols) =
     (case py_get line col of
        Inl e \<Rightarrow> Inl e
      | Inr v \<Rightarrow> (case get_cols line cols of Inl e \<Rightarrow> Inl e | Inr vs \<Rightarrow> Inr (v # vs)))"

fun pool_cols :: "real list \<Rightarrow> real list list \<Rightarrow> int list \<Rightarrow> error + real list" where
  "pool_cols dihedral_vals [] cols = Inr dihedral_vals"
| "pool_cols dihedral_vals (line # rest) cols =
     (case get_cols line cols of
        Inl e \<Rightarrow> Inl e
      | Inr vs \<Rightarrow> pool_cols (dihedral_vals @ vs) rest cols)"

text \<open>
  \<open>numpy.histogram(a, range=[mn, mx], bins=b)\<close> and \<open>numpy.histogram2d\<close> are library
  functions. They are modelled from numpy's documentation, over exact reals: the edges are
  \<open>linspace(mn, mx, b + 1)\<close>; every bin is half-open \<open>[e_i, e_(i+1))\<close> except the last
  one, which is closed \<open>[e_(b-1), e_b]\<close>; values outside \<open>[mn, mx]\<close> are in no bin; an
  empty range \<open>mn = mx\<close> is widened by one half on each side; a range with \<open>mx < mn\<close>
  and a bin count below one are refused.
\<close>

definition bin_edges :: "real \<Rightarrow> real \<Rightarrow> nat \<Rightarrow> real list" where
  "bin_edges mn mx bins = map (\<lambda>i. mn + real i * (mx - mn) / real bins) [0..<bins + 1]"

definition in_bin :: "real list \<Rightarrow> nat \<Rightarrow> nat \<Rightarrow> real \<Rightarrow> bool" where
  "in_bin edges bins i v \<longleftrightarrow>
     edges ! i \<le> v \<and> (if i + 1 = bins then v \<le> edges ! (i + 1) else v < edges ! (i + 1))"

definition np_range :: "real \<Rightarrow> real \<Rightarrow> int \<Rightarrow> error + (real \<times> real \<times> nat)" where
  "np_range histmin histmax histbins =
     (if histmax < histmin then Inl ValueError
      else if histbins < 1 then Inl ValueError
      else if histmin = histmax then Inr (histmin - 1 / 2, histmax + 1 / 2, nat histbins)
      else Inr (histmin, histmax, nat histbins))"

definition np_histogram :: "real list \<Rightarrow> real \<Rightarrow> real \<Rightarrow> int \<Rightarrow> error + nat list \<times> real list" where
  "np_histogram a histmin histmax histbins =
     (case np_range histmin histmax histbins of
        Inl e \<Rightarrow> Inl e
      | Inr (mn, mx, bins) \<Rightarrow>
          (let edges = bin_edges mn mx bins
           in Inr (map (\<lambda>i. length (filter (in_bin edges bins i) a)) [0..<bins], edges)))"

text \<open>\<open>prefix\<close> is \<open>None\<close>: the optional text output is not part of the model.\<close>

definition compute_rotamer_histogram ::
  "real list list \<Rightarrow> int list \<Rightarrow> real \<Rightarrow> real \<Rightarrow> int \<Rightarrow> error + nat list \<times> real list" where
  "compute_rotamer_histogram data_lines dihedral_cols histmin histmax histbins =
     (case pool_cols [] data_lines dihedral_cols of
        Inl e \<Rightarrow> Inl e
      | Inr dihedral_vals \<Rightarrow> np_histogram dihedral_vals histmin histmax histbins)"

section \<open>FreeEnergySurfaceBuilder: \<open>compute_rotamer_rotamer_histogram\<close>\<close>

text \<open>
  \<open>numpy.histogram2d(x, y, range, bins=[b, b], normed=True)\<close>: the count of each cell
  divided by the number of samples in the range and by the area of the cell. With no
  sample in the range numpy divides zero by zero and every cell is \<open>nan\<close>: the result is
  then \<open>None\<close>.
\<close>

definition np_histogram2d ::
  "real list \<Rightarrow> real list \<Rightarrow> real \<Rightarrow> real \<Rightarrow> int
     \<Rightarrow> error + real list list option \<times> real list \<times> real list" where
  "np_histogram2d x y histmin histmax histbins =
     (if length x \<noteq> length y then Inl ValueError
      else
        (case np_range histmin histmax histbins of
           Inl e \<Rightarrow> Inl e
         | Inr (mn, mx, bins) \<Rightarrow>
             (let edges = bin_edges mn mx bins;
                  counts = map (\<lambda>i. map (\<lambda>j. length (filter (\<lambda>(u, v). in_bin edges bins i u \<and> in_bin edges bins j v)
                                                         (zip x y))) [0..<bins]) [0..<bins];
                  s = sum_list (map sum_list counts);
                  area = ((mx - mn) / real bins) * ((mx - mn) / real bins)
              in if s = 0 then Inr (None, edges, edges)
                 else Inr (Some (map (map (\<lambda>c. real c / area / real s)) counts), edges, edges))))"

text \<open>
  Boolean-mask indexing of a two-dimensional array: \<open>histo[mask] = c\<close>,
  \<open>histo[mask] = f(histo[mask])\<close> for an elementwise \<open>f\<close>, and the read \<open>histo[mask]\<close>,
  which is the one-dimensional array of the selected cells.
\<close>

definition mask_set :: "bool list list \<Rightarrow> real \<Rightarrow> real list list \<Rightarrow> real list list" where
  "mask_set sel c histo = map2 (map2 (\<lambda>b x. if b then c else x)) sel histo"

definition mask_map :: "bool list list \<Rightarrow> (real \<Rightarrow> real) \<Rightarrow> real list list \<Rightarrow> real list list" where
  "mask_map sel f histo = map2 (map2 (\<lambda>b x. if b then f x else x)) sel histo"

definition mask_select :: "bool list list \<Rightarrow> real list list \<Rightarrow> real list" where
  "mask_select sel histo = concat (map2 (\<lambda>bs xs. map snd (filter fst (zip bs xs))) sel histo)"

text \<open>The transformation of the normalised histogram into the energy surface.\<close>

definition free_energy :: "real \<Rightarrow> real \<Rightarrow> real list list \<Rightarrow> error + real list list" where
  "free_energy kBT max_eng histo =
     (let low_val_indices = map (map (\<lambda>p. p \<le> 0)) histo;
          high_val_indices = map (map (\<lambda>p. 0 < p)) histo;
          histo1 = mask_set low_val_indices max_eng histo;
          histo2 = mask_map high_val_indices (\<lambda>p. - kBT * ln p) histo1
      in case py_min (mask_select high_val_indices histo2) of
           Inl e \<Rightarrow> Inl e
         | Inr min_val \<Rightarrow> Inr (mask_map high_val_indices (\<lambda>e. e - \<bar>min_val\<bar>) histo2))"

text \<open>The pooled series and their normalised joint histogram.\<close>

definition joint_histogram ::
  "real list list \<Rightarrow> int list \<Rightarrow> int list \<Rightarrow> real \<Rightarrow> real \<Rightarrow> int
     \<Rightarrow> error + real list list option \<times> real list \<times> real list" where
  "joint_histogram data_lines chi1_cols chi2_cols histmin histmax histbins =
     (case pool_cols [] data_lines chi1_cols of
        Inl e \<Rightarrow> Inl e
      | Inr dihedral_vals_x \<Rightarrow>
          (case pool_cols [] data_lines chi2_cols of
             Inl e \<Rightarrow> Inl e
           | Inr dihedral_vals_y \<Rightarrow> np_histogram2d dihedral_vals_x dihedral_vals_y histmin histmax histbins))"

text \<open>
  On an all-\<open>nan\<close> histogram both masks are empty, the cells stay \<open>nan\<close> and \<open>min\<close> of the
  empty selection raises \<open>ValueError\<close>.
\<close>

definition compute_rotamer_rotamer_histogram ::
  "real list list \<Rightarrow> int list \<Rightarrow> int list \<Rightarrow> real \<Rightarrow> real \<Rightarrow> real \<Rightarrow> real \<Rightarrow> int
     \<Rightarrow> error + real list list \<times> real list \<times> real list" where
  "compute_rotamer_rotamer_histogram data_lines chi1_cols chi2_cols kBT max_eng histmin histmax histbins =
     (case joint_histogram data_lines chi1_cols chi2_cols histmin histmax histbins of
        Inl e \<Rightarrow> Inl e
      | Inr (None, xedges, yedges) \<Rightarrow> Inl ValueError
      | Inr (Some histo, xedges, yedges) \<Rightarrow>
          (case free_energy kBT max_eng histo of
             Inl e \<Rightarrow> Inl e
           | Inr surface \<Rightarrow> Inr (surface, xedges, yedges)))"

section \<open>Reading a count table and an emitted row\<close>

text \<open>
  \<open>count_of\<close> is the count a table holds for a state-id, an absent state-id counting as
  zero. \<open>fill_zeros\<close> is what the reads of \<open>count_dict[k]\<close> for the listed keys leave
  of a dictionary. \<open>percents_of\<close> and \<open>row_of\<close> are the percentages and the row of one
  trajectory as the specification words them: each count over the trajectory's total.
\<close>

definition count_of :: "count_dict \<Rightarrow> int \<Rightarrow> int" where
  "count_of d k = (case map_of d k of None \<Rightarrow> 0 | Some v \<Rightarrow> v)"

definition fill_zeros :: "int list \<Rightarrow> count_dict \<Rightarrow> count_dict" where
  "fill_zeros ks d = fold (\<lambda>k d. fst (dd_get d k)) ks d"

definition percents_of :: "int \<Rightarrow> count_dict \<Rightarrow> real list" where
  "percents_of max_ions d =
     map (\<lambda>k. real_of_int (count_of d k) / real_of_int (sum_list (map snd d))) [0..max_ions]"

definition row_of :: "int \<Rightarrow> int list \<Rightarrow> real \<times> count_dict \<Rightarrow> row" where
  "row_of max_ions w = (\<lambda>(t, d). TrajRow t (percents_of max_ions d @ [weighted_average (percents_of max_ions d) w]))"

text \<open>The percentage columns and the final weighted-average column of an emitted row.\<close>

fun percentages :: "row \<Rightarrow> real list" where
  "percentages (TrajRow t vs) = butlast vs"
| "percentages (MeanRow vs) = butlast vs"
| "percentages (StderrRow vs) = []"

fun average :: "row \<Rightarrow> real" where
  "average (TrajRow t vs) = last vs"
| "average (MeanRow vs) = last vs"
| "average (StderrRow vs) = 0"

fun is_traj_row :: "row \<Rightarrow> bool" where
  "is_traj_row (TrajRow t vs) = True"
| "is_traj_row r = False"

text \<open>The weight map in force: the identity sequence when none is given.\<close>

definition weights_used :: "int \<Rightarrow> int list \<Rightarrow> int list" where
  "weights_used max_ions num_ions_map = (if num_ions_map = [] then [0..max_ions] else num_ions_map)"

text \<open>The sum of all counts of a table.\<close>

definition table_total :: "count_table \<Rightarrow> int" where
  "table_total ct = sum_list (map (\<lambda>(t, d). sum_list (map snd d)) ct)"

text \<open>
  The invariant of the counting loop: every trajectory of the table has an entry and every
  stored count is at least one. \<open>has_col\<close> says that a row can be indexed at a column.
\<close>

definition positive_counts :: "count_table \<Rightarrow> bool" where
  "positive_counts ct \<longleftrightarrow> list_all (\<lambda>p. snd p \<noteq> [] \<and> list_all (\<lambda>e. 1 \<le> snd e) (snd p)) ct"

definition has_col :: "'a list \<Rightarrow> int \<Rightarrow> bool" where
  "has_col line col \<longleftrightarrow> - int (length line) \<le> col \<and> col < int (length line)"

section \<open>Reading the series maps\<close>

text \<open>
  \<open>py_nth\<close> is the element a valid index reads. \<open>series_at\<close> looks a list up by
  trajectory and series index; \<open>rows_of\<close> is the rows of a trajectory in the order of the
  input; \<open>row_ok\<close> says that a row has every column the loop reads: the trajectory
  column, the series columns and, when there is a series, column \<open>0\<close>.
\<close>

definition py_nth :: "'a list \<Rightarrow> int \<Rightarrow> 'a" where
  "py_nth xs i = xs ! nat (if i < 0 then int (length xs) + i else i)"

definition series_at :: "series_map \<Rightarrow> real \<Rightarrow> nat \<Rightarrow> real list option" where
  "series_at m t s = (case m t of None \<Rightarrow> None | Some inner \<Rightarrow> inner s)"

definition series_list :: "series_map \<Rightarrow> real \<Rightarrow> nat \<Rightarrow> real list" where
  "series_list m t s = (case series_at m t s of None \<Rightarrow> [] | Some vs \<Rightarrow> vs)"

definition rows_of :: "real list list \<Rightarrow> int \<Rightarrow> real \<Rightarrow> real list list" where
  "rows_of data_lines traj_col t = filter (\<lambda>line. py_get line traj_col = Inr t) data_lines"

definition same_keys :: "series_map \<Rightarrow> series_map \<Rightarrow> bool" where
  "same_keys m1 m2 \<longleftrightarrow> (\<forall>t s. (series_at m1 t s = None) = (series_at m2 t s = None))"

definition row_ok :: "real list \<Rightarrow> int list \<Rightarrow> int \<Rightarrow> bool" where
  "row_ok line dihedral_cols traj_col \<longleftrightarrow>
     has_col line traj_col \<and> list_all (has_col line) dihedral_cols \<and> (dihedral_cols = [] \<or> has_col line 0)"

section \<open>Reading the pooled values\<close>

text \<open>
  \<open>pooled_values\<close> is the pooled list as the specification words it: for each row in
  turn, the values at the requested columns, one after the other. \<open>rows_have\<close> says
  that every row has every requested column.
\<close>

definition pooled_values :: "real list list \<Rightarrow> int list \<Rightarrow> real list" where
  "pooled_values data_lines cols = concat (map (\<lambda>line. map (py_nth line) cols) data_lines)"

definition rows_have :: "real list list \<Rightarrow> int list \<Rightarrow> bool" where
  "rows_have data_lines cols \<longleftrightarrow> list_all (\<lambda>line. list_all (has_col line) cols) data_lines"

section \<open>Reading the energy surface\<close>

text \<open>
  \<open>energies\<close> lists \<open>-kBT * ln p\<close> for the cells \<open>p\<close> of non-zero probability of a
  normalised histogram: the values of which the source takes the minimum.
\<close>

definition energies :: "real \<Rightarrow> real list list \<Rightarrow> real list" where
  "energies kBT histo = map (\<lambda>p. - kBT * ln p) (filter (\<lambda>p. 0 < p) (concat histo))"

section \<open>The loops of \<open>count_totals_to_percents\<close>\<close>

lemma dd_get_snd: "snd (dd_get d k) = count_of d k"
  by (simp add: dd_get_def count_of_def split: option.splits)

lemma count_of_dd_get: "count_of (fst (dd_get d k)) k' = count_of d k'"
  by (auto simp: dd_get_def count_of_def split: option.splits if_splits)

lemma count_of_fill_zeros: "count_of (fill_zeros ks d) k = count_of d k"
  unfolding fill_zeros_def
  by (induction ks arbitrary: d) (simp_all add: count_of_dd_get)

lemma fill_zeros_Cons: "fill_zeros (k # ks) d = fill_zeros ks (fst (dd_get d k))"
  by (simp add: fill_zeros_def)

lemma percent_loop_Inr:
  "percent_loop ks d tot line0 avgs = (d', Inr (line', avgs')) \<Longrightarrow>
     d' = fill_zeros ks d \<and> line' = line0 @ map (\<lambda>k. real_of_int (count_of d k) / tot) ks"
proof (induction ks arbitrary: d line0 avgs)
  case Nil
  then show ?case by (simp add: fill_zeros_def)
next
  case (Cons k ks)
  obtain d1 c where g: "dd_get d k = (d1, c)" by (cases "dd_get d k")
  have c: "c = count_of d k" and d1: "d1 = fst (dd_get d k)"
    using g dd_get_snd[of d k] by simp_all
  from Cons.prems g have nz: "tot \<noteq> 0"
    by (auto split: if_splits)
  from Cons.prems g nz have
    "percent_loop ks d1 tot (line0 @ [real_of_int c / tot]) (avgs(k := avgs k @ [real_of_int c / tot]))
       = (d', Inr (line', avgs'))"
    by (simp add: Let_def)
  from Cons.IH[OF this] show ?case
    by (simp add: fill_zeros_Cons c d1 count_of_dd_get)
qed

lemma percent_loop_returns:
  "ks = [] \<or> tot \<noteq> 0 \<Longrightarrow> \<exists>d' line' avgs'. percent_loop ks d tot line0 avgs = (d', Inr (line', avgs'))"
proof (induction ks arbitrary: d line0 avgs)
  case Nil
  then show ?case by simp
next
  case (Cons k ks)
  then have nz: "tot \<noteq> 0" by simp
  obtain d1 c where g: "dd_get d k = (d1, c)" by (cases "dd_get d k")
  show ?case using Cons.IH[of d1 "line0 @ [real_of_int c / tot]"] g nz by (simp add: Let_def)
qed

lemma percent_loop_zero:
  "tot = 0 \<Longrightarrow> percent_loop (k # ks) d tot line0 avgs = (fst (dd_get d k), Inl ZeroDivisionError)"
  by (cases "dd_get d k") simp

lemma percent_loop_Inl:
  "percent_loop ks d tot line0 avgs = (d', Inl e) \<Longrightarrow> e = ZeroDivisionError \<and> tot = 0 \<and> ks \<noteq> []"
proof (induction ks arbitrary: d line0 avgs)
  case Nil
  then show ?case by simp
next
  case (Cons k ks)
  obtain d1 c where g: "dd_get d k = (d1, c)" by (cases "dd_get d k")
  show ?case
  proof (cases "tot = 0")
    case True
    with Cons.prems g show ?thesis by simp
  next
    case False
    with Cons.prems g Cons.IH show ?thesis by (simp add: Let_def)
  qed
qed

lemma traj_loop_Inr:
  "traj_loop mx w ct rows avgs = (ct', Inr (rows', avgs')) \<Longrightarrow>
     ct' = map (\<lambda>(t, d). (t, fill_zeros [0..mx] d)) ct \<and> rows' = rows @ map (row_of mx w) ct"
proof (induction ct arbitrary: rows avgs ct')
  case Nil
  then show ?case by simp
next
  case (Cons p ct)
  obtain t d where p: "p = (t, d)" by (cases p)
  let ?tot = "real_of_int (sum_list (map snd d))"
  obtain d1 r where pl: "percent_loop [0..mx] d ?tot [] avgs = (d1, r)"
    by (cases "percent_loop [0..mx] d ?tot [] avgs")
  show ?case
  proof (cases r)
    case (Inl e)
    with Cons.prems p pl show ?thesis by simp
  next
    case (Inr q)
    obtain line1 avgs1 where q: "q = (line1, avgs1)" by (cases q)
    from percent_loop_Inr[of "[0..mx]" d ?tot "[]" avgs d1 line1 avgs1] pl Inr q
    have d1: "d1 = fill_zeros [0..mx] d" and line1: "line1 = percents_of mx d"
      by (simp_all add: percents_of_def)
    let ?rows1 = "rows @ [TrajRow t (line1 @ [weighted_average line1 w])]"
    let ?avgs2 = "avgs1(mx + 1 := avgs1 (mx + 1) @ [weighted_average line1 w])"
    obtain rest1 r1 where tlp: "traj_loop mx w ct ?rows1 ?avgs2 = (rest1, r1)"
      by (cases "traj_loop mx w ct ?rows1 ?avgs2")
    from Cons.prems p pl Inr q tlp have r1: "r1 = Inr (rows', avgs')" and ct': "ct' = (t, d1) # rest1"
      by (simp_all add: Let_def)
    from Cons.IH[OF tlp[unfolded r1]]
    have "rest1 = map (\<lambda>(t, d). (t, fill_zeros [0..mx] d)) ct" and "rows' = ?rows1 @ map (row_of mx w) ct"
      by blast+
    then show ?thesis
      by (simp add: p ct' d1 line1 row_of_def)
  qed
qed

lemma traj_loop_returns:
  "list_all (\<lambda>(t, d). mx < 0 \<or> sum_list (map snd d) \<noteq> 0) ct \<Longrightarrow>
     \<exists>ct' rows' avgs'. traj_loop mx w ct rows avgs = (ct', Inr (rows', avgs'))"
proof (induction ct arbitrary: rows avgs)
  case Nil
  then show ?case by simp
next
  case (Cons p ct)
  obtain t d where p: "p = (t, d)" by (cases p)
  let ?tot = "real_of_int (sum_list (map snd d))"
  from Cons.prems p have "[0..mx] = [] \<or> ?tot \<noteq> 0" by auto
  from percent_loop_returns[OF this, of d "[]" avgs]
  obtain d1 line1 avgs1 where pl: "percent_loop [0..mx] d ?tot [] avgs = (d1, Inr (line1, avgs1))"
    by blast
  let ?rows1 = "rows @ [TrajRow t (line1 @ [weighted_average line1 w])]"
  let ?avgs2 = "avgs1(mx + 1 := avgs1 (mx + 1) @ [weighted_average line1 w])"
  from Cons.prems have rest: "list_all (\<lambda>(t, d). mx < 0 \<or> sum_list (map snd d) \<noteq> 0) ct"
    by simp
  from Cons.IH[OF rest, of ?rows1 ?avgs2]
  obtain ct1 rows1 avgs3 where "traj_loop mx w ct ?rows1 ?avgs2 = (ct1, Inr (rows1, avgs3))"
    by blast
  with pl p show ?case by (simp add: Let_def)
qed

lemma traj_loop_Inl:
  "traj_loop mx w ct rows avgs = (ct', Inl e) \<Longrightarrow>
     e = ZeroDivisionError \<and> 0 \<le> mx \<and> (\<exists>(t, d) \<in> set ct. sum_list (map snd d) = 0)"
proof (induction ct arbitrary: rows avgs ct')
  case Nil
  then show ?case by simp
next
  case (Cons p ct)
  obtain t d where p: "p = (t, d)" by (cases p)
  let ?tot = "real_of_int (sum_list (map snd d))"
  obtain d1 r where pl: "percent_loop [0..mx] d ?tot [] avgs = (d1, r)"
    by (cases "percent_loop [0..mx] d ?tot [] avgs")
  show ?case
  proof (cases r)
    case (Inl e')
    from percent_loop_Inl[of "[0..mx]" d ?tot "[]" avgs d1 e'] pl Inl
    have "e' = ZeroDivisionError" "sum_list (map snd d) = 0" "0 \<le> mx" by auto
    moreover from Cons.prems p pl Inl have "e = e'" by simp
    ultimately show ?thesis by (simp add: p)
  next
    case (Inr q)
    obtain line1 avgs1 where q: "q = (line1, avgs1)" by (cases q)
    let ?rows1 = "rows @ [TrajRow t (line1 @ [weighted_average line1 w])]"
    let ?avgs2 = "avgs1(mx + 1 := avgs1 (mx + 1) @ [weighted_average line1 w])"
    obtain rest1 r1 where tlp: "traj_loop mx w ct ?rows1 ?avgs2 = (rest1, r1)"
      by (cases "traj_loop mx w ct ?rows1 ?avgs2")
    from Cons.prems p pl Inr q tlp have "r1 = Inl e" by (simp add: Let_def)
    with tlp have "traj_loop mx w ct ?rows1 ?avgs2 = (rest1, Inl e)" by simp
    from Cons.IH[OF this] show ?thesis by auto
  qed
qed

section \<open>What \<open>count_totals_to_percents\<close> returns\<close>

lemma ctp_Inr:
  assumes "count_totals_to_percents ct w = (ct', Inr rows)"
  shows "\<exists>mx m s. py_max (state_ids ct) = Inr mx \<and> int (length (weights_used mx w)) = mx + 1 \<and>
           ct' = map (\<lambda>(t, d). (t, fill_zeros [0..mx] d)) ct \<and>
           rows = map (row_of mx (weights_used mx w)) ct @ [MeanRow m, StderrRow s]"
proof (cases "py_max (state_ids ct)")
  case (Inl e)
  with assms show ?thesis by (simp add: count_totals_to_percents_def)
next
  case (Inr mx)
  let ?w = "weights_used mx w"
  from assms Inr have len: "int (length ?w) = mx + 1"
    by (auto simp: count_totals_to_percents_def weights_used_def Let_def split: if_splits)
  obtain ct1 r where tl: "traj_loop mx ?w ct [] (\<lambda>i. []) = (ct1, r)"
    by (cases "traj_loop mx ?w ct [] (\<lambda>i. [])")
  show ?thesis
  proof (cases r)
    case (Inl e)
    with assms Inr len tl show ?thesis
      by (simp add: count_totals_to_percents_def weights_used_def Let_def split: if_splits)
  next
    case Inr2: (Inr q)
    obtain rows1 avgs1 where q: "q = (rows1, avgs1)" by (cases q)
    from traj_loop_Inr[of mx ?w ct "[]" "\<lambda>i. []" ct1 rows1 avgs1] tl Inr2 q
    have ct1: "ct1 = map (\<lambda>(t, d). (t, fill_zeros [0..mx] d)) ct" and rows1: "rows1 = map (row_of mx ?w) ct"
      by simp_all
    from assms Inr len tl Inr2 q have "ct' = ct1"
      and "rows = rows1 @ [MeanRow (map (\<lambda>i. mean (avgs1 i)) [0..mx + 1]), StderrRow (map (\<lambda>i. sem (avgs1 i)) [0..mx + 1])]"
      by (simp_all add: count_totals_to_percents_def weights_used_def Let_def split: if_splits)
    with Inr len ct1 rows1 show ?thesis by blast
  qed
qed

lemma ctp_returns:
  assumes "py_max (state_ids ct) = Inr mx" and "int (length (weights_used mx w)) = mx + 1"
    and "list_all (\<lambda>(t, d). mx < 0 \<or> sum_list (map snd d) \<noteq> 0) ct"
  shows "\<exists>ct' rows. count_totals_to_percents ct w = (ct', Inr rows)"
proof -
  from traj_loop_returns[OF assms(3), of "weights_used mx w" "[]" "\<lambda>i. []"]
  obtain ct1 rows1 avgs1 where "traj_loop mx (weights_used mx w) ct [] (\<lambda>i. []) = (ct1, Inr (rows1, avgs1))"
    by blast
  with assms(1,2) show ?thesis
    by (simp add: count_totals_to_percents_def weights_used_def Let_def)
qed

lemma ctp_Inl:
  assumes "count_totals_to_percents ct w = (ct', Inl e)"
  shows "e = ValueError \<and> state_ids ct = [] \<and> ct' = ct \<or>
         e = AssertionError \<and> ct' = ct \<and> (\<exists>mx. py_max (state_ids ct) = Inr mx \<and> int (length (weights_used mx w)) \<noteq> mx + 1) \<or>
         e = ZeroDivisionError \<and> (\<exists>(t, d) \<in> set ct. sum_list (map snd d) = 0)"
proof (cases "state_ids ct")
  case Nil
  with assms show ?thesis by (simp add: count_totals_to_percents_def)
next
  case (Cons k ks)
  then obtain mx where mx: "py_max (state_ids ct) = Inr mx" by simp
  let ?w = "weights_used mx w"
  show ?thesis
  proof (cases "int (length ?w) = mx + 1")
    case False
    with assms mx show ?thesis
      by (auto simp: count_totals_to_percents_def weights_used_def Let_def split: if_splits)
  next
    case True
    obtain ct1 r where tl: "traj_loop mx ?w ct [] (\<lambda>i. []) = (ct1, r)"
      by (cases "traj_loop mx ?w ct [] (\<lambda>i. [])")
    from assms mx True tl have "r = Inl e"
      by (cases r) (auto simp: count_totals_to_percents_def weights_used_def Let_def split: if_splits)
    with tl traj_loop_Inl[of mx ?w ct "[]" "\<lambda>i. []" ct1 e] show ?thesis by blast
  qed
qed

lemma weighted_average_fold:
  "fold (\<lambda>(occupancy, ion_count) temp_average. temp_average + occupancy * real_of_int ion_count) ps a
     = a + (\<Sum>(p, c)\<leftarrow>ps. p * real_of_int c)"
  by (induction ps arbitrary: a) (auto simp: algebra_simps)

lemma upto_0_map: "[0..mx] = map int [0..<nat (mx + 1)]"
  by (rule nth_equalityI) auto

lemma weighted_average_sum:
  assumes "length ps = nat (mx + 1)" and "length ws = nat (mx + 1)"
  shows "weighted_average ps ws = (\<Sum>k\<leftarrow>[0..mx]. ps ! nat k * real_of_int (ws ! nat k))"
proof -
  have z: "zip ps ws = map (\<lambda>i. (ps ! i, ws ! i)) [0..<nat (mx + 1)]"
    using assms by (intro nth_equalityI) auto
  show ?thesis
    by (simp add: weighted_average_def weighted_average_fold z upto_0_map comp_def)
qed

lemma length_percents_of: "length (percents_of mx d) = nat (mx + 1)"
  by (simp add: percents_of_def)

lemma row_of_percentages: "percentages (row_of mx w (t, d)) = percents_of mx d"
  by (simp add: row_of_def)

lemma row_of_average: "average (row_of mx w (t, d)) = weighted_average (percents_of mx d) w"
  by (simp add: row_of_def)

lemma traj_row_cases:
  assumes "r \<in> set (map (row_of mx w) ct @ [MeanRow m, StderrRow s])" and "is_traj_row r"
  shows "\<exists>t d. (t, d) \<in> set ct \<and> r = row_of mx w (t, d)"
  using assms by auto

lemma count_of_sum_upto:
  assumes "distinct (map fst d)" and "\<forall>k \<in> fst ` set d. 0 \<le> k \<and> k \<le> mx"
  shows "(\<Sum>k\<leftarrow>[0..mx]. count_of d k) = sum_list (map snd d)"
  using assms
proof (induction d)
  case Nil
  then show ?case by (simp add: count_of_def)
next
  case (Cons p d)
  obtain k0 v where p: "p = (k0, v)" by (cases p)
  from Cons.prems p have k0: "0 \<le> k0" "k0 \<le> mx" "k0 \<notin> fst ` set d" by auto
  then have none: "count_of d k0 = 0"
    by (simp add: count_of_def map_of_eq_None_iff[THEN iffD2])
  have "(\<Sum>k\<leftarrow>[0..mx]. count_of (p # d) k) = (\<Sum>k\<leftarrow>[0..mx]. (if k = k0 then v else 0) + count_of d k)"
    using none by (intro arg_cong[where f = sum_list] map_cong) (auto simp: p count_of_def)
  also have "\<dots> = (\<Sum>k\<leftarrow>[0..mx]. if k = k0 then v else 0) + (\<Sum>k\<leftarrow>[0..mx]. count_of d k)"
    by (simp add: sum_list_addf)
  also have "(\<Sum>k\<leftarrow>[0..mx]. if k = k0 then v else 0) = v"
    using k0 by (simp add: sum_list_distinct_conv_sum_set)
  also from Cons have "(\<Sum>k\<leftarrow>[0..mx]. count_of d k) = sum_list (map snd d)" by simp
  finally show ?case by (simp add: p)
qed

lemma percents_of_sum:
  assumes "distinct (map fst d)" and "\<forall>k \<in> fst ` set d. 0 \<le> k \<and> k \<le> mx" and "sum_list (map snd d) \<noteq> 0"
  shows "sum_list (percents_of mx d) = 1"
proof -
  have div: "(\<Sum>k\<leftarrow>ks. f k / c) = (\<Sum>k\<leftarrow>ks. f k) / c" for f :: "int \<Rightarrow> real" and ks c
    by (induction ks) (simp_all add: add_divide_distrib)
  have "sum_list (percents_of mx d) = (\<Sum>k\<leftarrow>[0..mx]. real_of_int (count_of d k)) / real_of_int (sum_list (map snd d))"
    unfolding percents_of_def by (rule div)
  also have "(\<Sum>k\<leftarrow>[0..mx]. real_of_int (count_of d k)) = real_of_int (\<Sum>k\<leftarrow>[0..mx]. count_of d k)"
    using sum_list_of_int[of "map (count_of d) [0..mx]"] by (simp add: comp_def)
  finally show ?thesis using assms by (simp add: count_of_sum_upto)
qed

lemma fill_zeros_append:
  "distinct ks \<Longrightarrow> fill_zeros ks d = d @ map (\<lambda>k. (k, 0)) (filter (\<lambda>k. k \<notin> fst ` set d) ks)"
proof (induction ks arbitrary: d)
  case Nil
  then show ?case by (simp add: fill_zeros_def)
next
  case (Cons k ks)
  show ?case
  proof (cases "map_of d k")
    case None
    then have notin: "k \<notin> fst ` set d" by (simp add: map_of_eq_None_iff)
    from None have d1: "fst (dd_get d k) = d @ [(k, 0)]" by (simp add: dd_get_def)
    have "filter (\<lambda>k'. k' \<notin> fst ` set (d @ [(k, 0)])) ks = filter (\<lambda>k'. k' \<notin> fst ` set d) ks"
      using Cons.prems by (intro filter_cong) auto
    with Cons.IH[of "d @ [(k, 0)]"] Cons.prems notin d1 show ?thesis by (simp add: fill_zeros_Cons)
  next
    case (Some v)
    then have isin: "k \<in> fst ` set d" by (rule map_of_SomeD[THEN image_eqI[where f = fst, rotated]]) simp
    from Some have d1: "fst (dd_get d k) = d" by (simp add: dd_get_def)
    with Cons.IH[of d] Cons.prems isin show ?thesis by (simp add: fill_zeros_Cons)
  qed
qed

section \<open>PercentAggregator: the configuration check and the weighted average\<close>

text \<open>
  Claim C2. A weight map is supplied when \<open>num_ions_map\<close> is non-empty: the empty list is
  the parameter's default and the source's own test for "not supplied". For every count
  table whose largest state-id \<open>max_id\<close> is at least \<open>0\<close> and every supplied weight map
  whose length differs from \<open>max_id + 1\<close>, \<open>count_totals_to_percents\<close> raises the
  assertion error of its configuration check, before any row is built and before the count
  table is touched: the table it leaves is the table it was given.
\<close>

theorem weight_map_mismatch_raises:
  assumes "py_max (state_ids ct) = Inr max_id" and "0 \<le> max_id"
    and "num_ions_map \<noteq> []" and "int (length num_ions_map) \<noteq> max_id + 1"
  shows "count_totals_to_percents ct num_ions_map = (ct, Inl AssertionError)"
  using assms by (simp add: count_totals_to_percents_def)

theorem weight_map_mismatch_raises_witness:
  "py_max (state_ids [(1, [(0, 2), (1, 1)])]) = Inr 1 \<and> (0::int) \<le> 1 \<and> [10] \<noteq> ([]::int list) \<and>
   int (length [10::int]) \<noteq> 1 + 1 \<and>
   count_totals_to_percents [(1, [(0, 2), (1, 1)])] [10] = ([(1, [(0, 2), (1, 1)])], Inl AssertionError)"
  using weight_map_mismatch_raises[of "[(1, [(0, 2), (1, 1)])]" 1 "[10]"]
  by (simp add: state_ids_def)

text \<open>
  Claim C3. In every trajectory row that \<open>count_totals_to_percents\<close> emits, there are
  \<open>max_id + 1\<close> percentages, the weight map in force (the identity sequence \<open>0..max_id\<close>
  when none is given) has the same length, and the final column is the sum over the
  state-ids \<open>0..max_id\<close> of the row's percentage at the state-id times the weight at the
  state-id: it is recomputable from the row itself.
\<close>

theorem weighted_average_column:
  assumes "count_totals_to_percents ct num_ions_map = (ct', Inr rows)"
    and "py_max (state_ids ct) = Inr max_id"
    and "r \<in> set rows" and "is_traj_row r"
  shows "length (percentages r) = nat (max_id + 1) \<and>
         length (weights_used max_id num_ions_map) = nat (max_id + 1) \<and>
         average r = (\<Sum>k\<leftarrow>[0..max_id]. percentages r ! nat k * real_of_int (weights_used max_id num_ions_map ! nat k))"
proof -
  let ?w = "weights_used max_id num_ions_map"
  from ctp_Inr[OF assms(1)] assms(2) obtain m s where
    len: "int (length ?w) = max_id + 1" and
    rows: "rows = map (row_of max_id ?w) ct @ [MeanRow m, StderrRow s]"
    by auto
  from assms(3) have "r \<in> set (map (row_of max_id ?w) ct @ [MeanRow m, StderrRow s])"
    unfolding rows .
  from traj_row_cases[OF this assms(4)]
  obtain t d where r: "r = row_of max_id ?w (t, d)" by blast
  from len have len': "length ?w = nat (max_id + 1)" by linarith
  have "average r = (\<Sum>k\<leftarrow>[0..max_id]. percentages r ! nat k * real_of_int (?w ! nat k))"
    unfolding r row_of_percentages row_of_average
    by (rule weighted_average_sum[OF length_percents_of len'])
  moreover have "length (percentages r) = nat (max_id + 1)"
    unfolding r row_of_percentages by (rule length_percents_of)
  ultimately show ?thesis using len' by blast
qed

theorem weighted_average_column_witness:
  "count_totals_to_percents [(1, [(0, 1), (1, 3)])] [10, 20] =
     ([(1, [(0, 1), (1, 3)])], Inr [TrajRow 1 [1 / 4, 3 / 4, 35 / 2], MeanRow [1 / 4, 3 / 4, 35 / 2], StderrRow [None, None, None]]) \<and>
   py_max (state_ids [(1, [(0, 1), (1, 3)])]) = Inr 1 \<and>
   TrajRow 1 [1 / 4, 3 / 4, 35 / 2] \<in> set [TrajRow 1 [1 / 4, 3 / 4, 35 / 2], MeanRow [1 / 4, 3 / 4, 35 / 2], StderrRow [None, None, None]] \<and>
   is_traj_row (TrajRow 1 [1 / 4, 3 / 4, 35 / 2]) \<and>
   length (percentages (TrajRow 1 [1 / 4, 3 / 4, 35 / 2])) = nat (1 + 1) \<and>
   average (TrajRow 1 [1 / 4, 3 / 4, 35 / 2]) =
     (\<Sum>k\<leftarrow>[0..1]. percentages (TrajRow 1 [1 / 4, 3 / 4, 35 / 2]) ! nat k * real_of_int (weights_used 1 [10, 20] ! nat k))"
proof -
  have run: "count_totals_to_percents [(1, [(0, 1), (1, 3)])] [10, 20] =
     ([(1, [(0, 1), (1, 3)])], Inr [TrajRow 1 [1 / 4, 3 / 4, 35 / 2], MeanRow [1 / 4, 3 / 4, 35 / 2], StderrRow [None, None, None]])"
    by (simp add: state_ids_def count_totals_to_percents_def dd_get_def weighted_average_def mean_def sem_def upto.simps Let_def)
  have mx: "py_max (state_ids [(1, [(0, 1), (1, 3)])]) = Inr 1"
    by (simp add: state_ids_def)
  from weighted_average_column[OF run mx, of "TrajRow 1 [1 / 4, 3 / 4, 35 / 2]"] run mx
  show ?thesis by simp
qed

lemma py_max_Inr: "py_max xs = Inr m \<Longrightarrow> xs \<noteq> [] \<and> m = Max (set xs)"
  by (cases xs) (simp_all add: Max.set_eq_fold[symmetric] del: set_simps)

lemma py_max_ge: "py_max xs = Inr m \<Longrightarrow> x \<in> set xs \<Longrightarrow> x \<le> m"
  using py_max_Inr[of xs m] by simp

lemma state_ids_mem: "(t, d) \<in> set ct \<Longrightarrow> k \<in> fst ` set d \<Longrightarrow> k \<in> set (state_ids ct)"
  by (force simp: state_ids_def)

section \<open>PercentAggregator: the percentages of a row\<close>

text \<open>
  Claim C1, as amended. For every count table with distinct keys in which every state-id is
  at least \<open>0\<close> and each trajectory has a positive total count, every trajectory row that
  \<open>count_totals_to_percents\<close> emits has \<open>max_id + 1\<close> percentages, and they sum to
  \<open>1\<close> exactly over the reals.
\<close>

theorem percentages_sum_to_one:
  assumes "wf_table ct"
    and "list_all (\<lambda>(t, d). 0 < sum_list (map snd d)) ct"
    and "list_all (\<lambda>k. 0 \<le> k) (state_ids ct)"
    and "count_totals_to_percents ct num_ions_map = (ct', Inr rows)"
    and "py_max (state_ids ct) = Inr max_id"
    and "r \<in> set rows" and "is_traj_row r"
  shows "length (percentages r) = nat (max_id + 1) \<and> sum_list (percentages r) = 1"
proof -
  let ?w = "weights_used max_id num_ions_map"
  from ctp_Inr[OF assms(4)] assms(5) obtain m s where
    rows: "rows = map (row_of max_id ?w) ct @ [MeanRow m, StderrRow s]"
    by auto
  from assms(6) have "r \<in> set (map (row_of max_id ?w) ct @ [MeanRow m, StderrRow s])"
    unfolding rows .
  from traj_row_cases[OF this assms(7)]
  obtain t d where td: "(t, d) \<in> set ct" and r: "r = row_of max_id ?w (t, d)" by blast
  from assms(1) td have dist: "distinct (map fst d)"
    by (auto simp: wf_table_def list_all_iff)
  from assms(2) td have pos: "sum_list (map snd d) \<noteq> 0"
    by (auto simp: list_all_iff)
  have keys: "\<forall>k \<in> fst ` set d. 0 \<le> k \<and> k \<le> max_id"
  proof
    fix k assume "k \<in> fst ` set d"
    then have k: "k \<in> set (state_ids ct)" using td by (rule state_ids_mem[rotated])
    with assms(3) have "0 \<le> k" by (simp add: list_all_iff)
    moreover from py_max_ge[OF assms(5) k] have "k \<le> max_id" .
    ultimately show "0 \<le> k \<and> k \<le> max_id" ..
  qed
  show ?thesis
    unfolding r row_of_percentages
    using percents_of_sum[OF dist keys pos] by (simp add: length_percents_of)
qed

theorem percentages_sum_to_one_witness:
  "wf_table [(1, [(0, 1), (1, 3)])] \<and>
   list_all (\<lambda>(t, d). 0 < sum_list (map snd d)) [(1::real, [(0::int, 1::int), (1, 3)])] \<and>
   list_all (\<lambda>k. 0 \<le> k) (state_ids [(1, [(0, 1), (1, 3)])]) \<and>
   count_totals_to_percents [(1, [(0, 1), (1, 3)])] [10, 20] =
     ([(1, [(0, 1), (1, 3)])], Inr [TrajRow 1 [1 / 4, 3 / 4, 35 / 2], MeanRow [1 / 4, 3 / 4, 35 / 2], StderrRow [None, None, None]]) \<and>
   py_max (state_ids [(1, [(0, 1), (1, 3)])]) = Inr 1 \<and>
   TrajRow 1 [1 / 4, 3 / 4, 35 / 2] \<in> set [TrajRow 1 [1 / 4, 3 / 4, 35 / 2], MeanRow [1 / 4, 3 / 4, 35 / 2], StderrRow [None, None, None]] \<and>
   is_traj_row (TrajRow 1 [1 / 4, 3 / 4, 35 / 2]) \<and>
   length (percentages (TrajRow 1 [1 / 4, 3 / 4, 35 / 2])) = nat (1 + 1) \<and>
   sum_list (percentages (TrajRow 1 [1 / 4, 3 / 4, 35 / 2])) = 1"
proof -
  have wf: "wf_table [(1, [(0, 1), (1, 3)])]"
    by (simp add: wf_table_def)
  have pos: "list_all (\<lambda>(t, d). 0 < sum_list (map snd d)) [(1::real, [(0::int, 1::int), (1, 3)])]"
    by simp
  have ids: "list_all (\<lambda>k. 0 \<le> k) (state_ids [(1, [(0, 1), (1, 3)])])"
    by (simp add: state_ids_def)
  have run: "count_totals_to_percents [(1, [(0, 1), (1, 3)])] [10, 20] =
     ([(1, [(0, 1), (1, 3)])], Inr [TrajRow 1 [1 / 4, 3 / 4, 35 / 2], MeanRow [1 / 4, 3 / 4, 35 / 2], StderrRow [None, None, None]])"
    by (simp add: state_ids_def count_totals_to_percents_def dd_get_def weighted_average_def mean_def sem_def upto.simps Let_def)
  have mx: "py_max (state_ids [(1, [(0, 1), (1, 3)])]) = Inr 1"
    by (simp add: state_ids_def)
  from percentages_sum_to_one[OF wf pos ids run mx, of "TrajRow 1 [1 / 4, 3 / 4, 35 / 2]"] wf pos ids run mx
  show ?thesis by simp
qed

text \<open>
  Claim C1 as first stated fails on a table with a negative state-id: the loop over
  \<open>range(max_ions+1)\<close> never reads it, while the trajectory's total counts it. Here the
  total is \<open>2\<close> and the only percentage is \<open>1 / 2\<close>.
\<close>

theorem negative_state_id_counterexample:
  "wf_table [(1, [(- 1, 1), (0, 1)])] \<and>
   list_all (\<lambda>(t, d). 0 < sum_list (map snd d)) [(1::real, [(- 1::int, 1::int), (0, 1)])] \<and>
   py_max (state_ids [(1, [(- 1, 1), (0, 1)])]) = Inr 0 \<and>
   snd (count_totals_to_percents [(1, [(- 1, 1), (0, 1)])] []) =
     Inr [TrajRow 1 [1 / 2, 0], MeanRow [1 / 2, 0], StderrRow [None, None]] \<and>
   sum_list (percentages (TrajRow 1 [1 / 2, 0])) = 1 / 2 \<and>
   sum_list (percentages (TrajRow 1 [1 / 2, 0])) \<noteq> 1"
  by (simp add: wf_table_def state_ids_def count_totals_to_percents_def dd_get_def weighted_average_def mean_def sem_def upto.simps Let_def)

section \<open>PercentAggregator: what the aggregation does to the count table\<close>

text \<open>
  Claim C8, as amended. On a run of \<open>count_totals_to_percents\<close> that returns rows, the
  count table it leaves has the same trajectories in the same order; each inner mapping
  keeps its entries, with their counts, and gains exactly one zero-count entry for every
  state-id of \<open>0..max_id\<close> it lacked, and nothing else.
\<close>

theorem aggregation_adds_zero_entries:
  assumes "count_totals_to_percents ct num_ions_map = (ct', Inr rows)"
    and "py_max (state_ids ct) = Inr max_id"
    and "i < length ct"
  shows "length ct' = length ct \<and> fst (ct' ! i) = fst (ct ! i) \<and>
         snd (ct' ! i) =
           snd (ct ! i) @ map (\<lambda>k. (k, 0)) (filter (\<lambda>k. k \<notin> fst ` set (snd (ct ! i))) [0..max_id])"
proof -
  from ctp_Inr[OF assms(1)] assms(2)
  have ct': "ct' = map (\<lambda>(t, d). (t, fill_zeros [0..max_id] d)) ct" by auto
  obtain t d where td: "ct ! i = (t, d)" by (cases "ct ! i")
  from assms(3) td have "ct' ! i = (t, fill_zeros [0..max_id] d)"
    by (simp add: ct')
  then show ?thesis
    using td fill_zeros_append[of "[0..max_id]" d] by (simp add: ct')
qed

theorem aggregation_adds_zero_entries_witness:
  "count_totals_to_percents [(1, [(1, 1)])] [] =
     ([(1, [(1, 1), (0, 0)])], Inr [TrajRow 1 [0, 1, 1], MeanRow [0, 1, 1], StderrRow [None, None, None]]) \<and>
   py_max (state_ids [(1, [(1, 1)])]) = Inr 1 \<and>
   (0::nat) < length [(1::real, [(1::int, 1::int)])] \<and>
   length [(1::real, [(1::int, 1::int), (0, 0)])] = length [(1::real, [(1::int, 1::int)])] \<and>
   snd ([(1::real, [(1::int, 1::int), (0, 0)])] ! 0) =
     snd ([(1::real, [(1::int, 1::int)])] ! 0) @
       map (\<lambda>k. (k, 0)) (filter (\<lambda>k. k \<notin> fst ` set (snd ([(1::real, [(1::int, 1::int)])] ! 0))) [0..1])"
proof -
  have run: "count_totals_to_percents [(1, [(1, 1)])] [] =
     ([(1, [(1, 1), (0, 0)])], Inr [TrajRow 1 [0, 1, 1], MeanRow [0, 1, 1], StderrRow [None, None, None]])"
    by (simp add: state_ids_def count_totals_to_percents_def dd_get_def weighted_average_def mean_def sem_def upto.simps Let_def)
  have mx: "py_max (state_ids [(1, [(1, 1)])]) = Inr 1"
    by (simp add: state_ids_def)
  from aggregation_adds_zero_entries[OF run mx, of 0] run mx
  show ?thesis by simp
qed

text \<open>
  Claim C8 as first stated fails: the read \<open>count_dict[traj_index]\<close> on a
  \<open>defaultdict(int)\<close> inserts the state-id \<open>0\<close> with count \<open>0\<close> into a trajectory
  that had only state-id \<open>1\<close>.
\<close>

theorem aggregation_changes_table_counterexample:
  "fst (count_totals_to_percents [(1, [(1, 1)])] []) = [(1, [(1, 1), (0, 0)])] \<and>
   fst (count_totals_to_percents [(1, [(1, 1)])] []) \<noteq> [(1, [(1, 1)])]"
  by (simp add: state_ids_def count_totals_to_percents_def dd_get_def weighted_average_def mean_def sem_def upto.simps Let_def)

section \<open>The counting loop of \<open>regex_counter\<close>\<close>


lemma update_dd_get: "AList.update k v (fst (dd_get d k)) = AList.update k v d"
proof (cases "map_of d k")
  case None
  then have "k \<notin> fst ` set d" by (simp add: map_of_eq_None_iff)
  then have "AList.update k v (d @ [(k, 0)]) = AList.update k v d"
    by (induction d) auto
  with None show ?thesis by (simp add: dd_get_def)
next
  case (Some u)
  then show ?thesis by (simp add: dd_get_def)
qed

lemma count_incr_eq:
  "count_incr ct t s =
     (let d = (case map_of ct t of None \<Rightarrow> [] | Some d \<Rightarrow> d)
      in AList.update t (AList.update s (count_of d s + 1) d) ct)"
proof -
  let ?d = "case map_of ct t of None \<Rightarrow> [] | Some d \<Rightarrow> d"
  obtain d1 v where g: "dd_get ?d s = (d1, v)" by (cases "dd_get ?d s")
  then have d1: "d1 = fst (dd_get ?d s)" and v: "v = count_of ?d s"
    using dd_get_snd[of ?d s] by simp_all
  from g have "count_incr ct t s = AList.update t (AList.update s (v + 1) d1) ct"
    by (simp add: count_incr_def)
  then show ?thesis
    unfolding d1 v by (simp add: Let_def update_dd_get)
qed

lemma set_update_subset: "set (AList.update k v al) \<subseteq> insert (k, v) (set al)"
  by (induction al) auto

lemma sum_update:
  fixes f :: "'k \<times> 'v \<Rightarrow> int"
  assumes "distinct (map fst al)"
  shows "sum_list (map f (AList.update k v al)) =
           sum_list (map f al) - (case map_of al k of None \<Rightarrow> 0 | Some u \<Rightarrow> f (k, u)) + f (k, v)"
  using assms
proof (induction al)
  case Nil
  then show ?case by simp
next
  case (Cons p al)
  obtain k' u where p: "p = (k', u)" by (cases p)
  show ?case
  proof (cases "k' = k")
    case True
    with Cons.prems p show ?thesis by simp
  next
    case False
    with Cons p show ?thesis by simp
  qed
qed

lemma map_of_wf: "wf_table ct \<Longrightarrow> map_of ct t = Some d \<Longrightarrow> distinct (map fst d)"
  by (auto simp: wf_table_def list_all_iff dest: map_of_SomeD)

lemma map_of_positive:
  "positive_counts ct \<Longrightarrow> map_of ct t = Some d \<Longrightarrow> d \<noteq> [] \<and> (\<forall>e \<in> set d. 1 \<le> snd e)"
proof -
  assume pc: "positive_counts ct" and "map_of ct t = Some d"
  then have "(t, d) \<in> set ct" by (simp add: map_of_SomeD)
  with pc have "snd (t, d) \<noteq> [] \<and> list_all (\<lambda>e. 1 \<le> snd e) (snd (t, d))"
    unfolding positive_counts_def list_all_iff by blast
  then show ?thesis by (simp add: list_all_iff)
qed

lemma count_of_nonneg: "\<forall>e \<in> set d. 1 \<le> snd e \<Longrightarrow> 0 \<le> count_of d s"
proof (cases "map_of d s")
  case None
  then show ?thesis by (simp add: count_of_def)
next
  case (Some v)
  assume pos: "\<forall>e \<in> set d. 1 \<le> snd e"
  from Some have "(s, v) \<in> set d" by (rule map_of_SomeD)
  with pos have "1 \<le> snd (s, v)" by blast
  with Some show ?thesis by (simp add: count_of_def)
qed

lemma count_incr_wf:
  assumes "wf_table ct"
  shows "wf_table (count_incr ct t s)"
proof -
  let ?d = "case map_of ct t of None \<Rightarrow> [] | Some d \<Rightarrow> d"
  have d: "distinct (map fst ?d)"
    using assms by (auto split: option.splits dest: map_of_wf)
  let ?d' = "AList.update s (count_of ?d s + 1) ?d"
  have d': "distinct (map fst ?d')" using d by (rule distinct_update)
  have "set (AList.update t ?d' ct) \<subseteq> insert (t, ?d') (set ct)" by (rule set_update_subset)
  with assms d' have "list_all (\<lambda>(t, cd). distinct (map fst cd)) (AList.update t ?d' ct)"
    by (auto simp: wf_table_def list_all_iff)
  moreover from assms have "distinct (map fst (AList.update t ?d' ct))"
    by (simp add: wf_table_def distinct_update)
  ultimately show ?thesis by (simp add: wf_table_def count_incr_eq Let_def)
qed

lemma count_incr_positive:
  assumes "positive_counts ct"
  shows "positive_counts (count_incr ct t s)"
proof -
  let ?d = "case map_of ct t of None \<Rightarrow> [] | Some d \<Rightarrow> d"
  have d: "\<forall>e \<in> set ?d. 1 \<le> snd e"
  proof (cases "map_of ct t")
    case None
    then show ?thesis by simp
  next
    case (Some d)
    with map_of_positive[OF assms Some] show ?thesis by simp
  qed
  let ?d' = "AList.update s (count_of ?d s + 1) ?d"
  have "set ?d' \<subseteq> insert (s, count_of ?d s + 1) (set ?d)" by (rule set_update_subset)
  moreover from count_of_nonneg[OF d, of s] have "1 \<le> snd (s, count_of ?d s + 1)" by simp
  ultimately have d': "\<forall>e \<in> set ?d'. 1 \<le> snd e" using d by blast
  have ne: "?d' \<noteq> []" by simp
  have sub: "set (AList.update t ?d' ct) \<subseteq> insert (t, ?d') (set ct)" by (rule set_update_subset)
  have "snd p \<noteq> [] \<and> list_all (\<lambda>e. 1 \<le> snd e) (snd p)" if "p \<in> set (AList.update t ?d' ct)" for p
  proof (cases "p = (t, ?d')")
    case True
    with d' ne show ?thesis by (simp add: list_all_iff)
  next
    case False
    with that sub have "p \<in> set ct" by blast
    with assms show ?thesis unfolding positive_counts_def list_all_iff by blast
  qed
  then have "positive_counts (AList.update t ?d' ct)"
    unfolding positive_counts_def list_all_iff by blast
  then show ?thesis by (simp add: count_incr_eq Let_def)
qed

lemma count_incr_keys: "fst ` set (count_incr ct t s) = insert t (fst ` set ct)"
  by (simp add: count_incr_eq Let_def dom_update)

lemma count_incr_total:
  assumes "wf_table ct"
  shows "table_total (count_incr ct t s) = table_total ct + 1"
proof -
  let ?d = "case map_of ct t of None \<Rightarrow> [] | Some d \<Rightarrow> d"
  let ?f = "\<lambda>(t, d). sum_list (map snd d) :: int"
  have d: "distinct (map fst ?d)"
    using assms by (auto split: option.splits dest: map_of_wf)
  let ?d' = "AList.update s (count_of ?d s + 1) ?d"
  have inner: "sum_list (map snd ?d') = sum_list (map snd ?d) + 1"
    using sum_update[OF d, of snd s "count_of ?d s + 1"]
    by (simp add: count_of_def split: option.splits)
  from assms have "distinct (map fst ct)" by (simp add: wf_table_def)
  from sum_update[OF this, of ?f t ?d']
  have "sum_list (map ?f (AList.update t ?d' ct)) =
          sum_list (map ?f ct) - (case map_of ct t of None \<Rightarrow> 0 | Some u \<Rightarrow> sum_list (map snd u)) + sum_list (map snd ?d')"
    by (cases "map_of ct t") simp_all
  also have "\<dots> = sum_list (map ?f ct) + 1"
    using inner by (simp split: option.splits)
  finally show ?thesis by (simp add: table_total_def count_incr_eq Let_def)
qed

lemma regex_counter_loop_Inr:
  assumes "regex_counter_loop ct0 ps col = Inr ct" and "wf_table ct0" and "positive_counts ct0"
  shows "wf_table ct \<and> positive_counts ct \<and>
         Inr ` fst ` set ct = Inr ` fst ` set ct0 \<union> (\<lambda>p. py_get (fst p) col) ` set ps \<and>
         table_total ct = table_total ct0 + int (length ps)"
  using assms
proof (induction ps arbitrary: ct0)
  case Nil
  then show ?case by simp
next
  case (Cons p ps)
  obtain line s where p: "p = (line, s)" by (cases p)
  from Cons.prems(1) p obtain t where t: "py_get line col = Inr t"
    by (cases "py_get line col") simp_all
  let ?ct1 = "count_incr ct0 t s"
  from Cons.prems(1) p t have run: "regex_counter_loop ?ct1 ps col = Inr ct" by simp
  from Cons.IH[OF run count_incr_wf[OF Cons.prems(2)] count_incr_positive[OF Cons.prems(3)]]
  have "wf_table ct" "positive_counts ct"
    and keys: "Inr ` fst ` set ct = Inr ` fst ` set ?ct1 \<union> (\<lambda>p. py_get (fst p) col) ` set ps"
    and tot: "table_total ct = table_total ?ct1 + int (length ps)"
    by simp_all
  moreover from keys have "Inr ` fst ` set ct = Inr ` fst ` set ct0 \<union> (\<lambda>p. py_get (fst p) col) ` set (p # ps)"
    by (simp add: count_incr_keys p t)
  moreover from tot have "table_total ct = table_total ct0 + int (length (p # ps))"
    by (simp add: count_incr_total[OF Cons.prems(2)])
  ultimately show ?case by blast
qed


lemma positive_counts_sum:
  assumes "positive_counts ct" and "(t, d) \<in> set ct"
  shows "1 \<le> sum_list (map snd d)"
proof -
  from assms have "snd (t, d) \<noteq> [] \<and> list_all (\<lambda>e. 1 \<le> snd e) (snd (t, d))"
    unfolding positive_counts_def list_all_iff by blast
  then have ne: "d \<noteq> []" and pos: "\<forall>e \<in> set d. 1 \<le> snd e"
    by (simp_all add: list_all_iff)
  then obtain k v d' where d: "d = (k, v) # d'" by (cases d) auto
  from pos d have "1 \<le> v" by simp
  moreover from pos d have "0 \<le> sum_list (map snd d')"
    by (intro sum_list_nonneg) auto
  ultimately show ?thesis by (simp add: d)
qed

lemma regex_counter_totals_Inr:
  assumes "regex_counter_totals data_floats data_regex traj_col = Inr ct"
  shows "wf_table ct \<and> positive_counts ct \<and>
         Inr ` fst ` set ct = (\<lambda>line. py_get line traj_col) ` set (take (length data_regex) data_floats) \<and>
         table_total ct = int (min (length data_floats) (length data_regex))"
proof -
  let ?ps = "zip data_floats (map snd data_regex)"
  from assms have run: "regex_counter_loop [] ?ps traj_col = Inr ct"
    by (simp add: regex_counter_totals_def)
  have wf0: "wf_table []" by (simp add: wf_table_def)
  have pc0: "positive_counts []" by (simp add: positive_counts_def)
  have "map fst ?ps = take (length data_regex) data_floats"
    by (simp add: map_fst_zip_take take_all_iff min_def)
  then have "set (map fst ?ps) = set (take (length data_regex) data_floats)"
    by (rule arg_cong)
  then have "fst ` set ?ps = set (take (length data_regex) data_floats)"
    by (simp only: set_map)
  then have "(\<lambda>line. py_get line traj_col) ` fst ` set ?ps =
      (\<lambda>line. py_get line traj_col) ` set (take (length data_regex) data_floats)"
    by (rule arg_cong)
  then have img: "(\<lambda>p. py_get (fst p) traj_col) ` set ?ps =
      (\<lambda>line. py_get line traj_col) ` set (take (length data_regex) data_floats)"
    by (simp only: image_image)
  from regex_counter_loop_Inr[OF run wf0 pc0] img show ?thesis
    by (simp add: table_total_def)
qed



lemma ctp_positive_counts:
  assumes "positive_counts ct"
  shows "snd (count_totals_to_percents ct w) \<noteq> Inl ZeroDivisionError"
proof
  assume z: "snd (count_totals_to_percents ct w) = Inl ZeroDivisionError"
  obtain ct' where "count_totals_to_percents ct w = (ct', Inl ZeroDivisionError)"
    using z by (cases "count_totals_to_percents ct w") simp
  from ctp_Inl[OF this] obtain t d where "(t, d) \<in> set ct" and "sum_list (map snd d) = 0"
    by auto
  with positive_counts_sum[OF assms, of t d] show False by simp
qed

section \<open>OccupancyCounter: the table it builds\<close>

text \<open>
  Claim C9. In every count table that \<open>regex_counter\<close> builds, the trajectory keys are
  exactly the trajectory identifiers of the paired rows (a row is paired when a state-id
  stands at its position), and every trajectory's total count is at least \<open>1\<close>. So
  \<open>regex_counter\<close>, which hands this table to \<open>count_totals_to_percents\<close>, never
  raises the division by zero of the percentage computation, whatever the weight map.
\<close>

theorem counted_trajectories_have_observations:
  assumes "regex_counter_totals data_floats data_regex traj_col = Inr ct"
  shows "Inr ` fst ` set ct = (\<lambda>line. py_get line traj_col) ` set (take (length data_regex) data_floats) \<and>
         list_all (\<lambda>p. 1 \<le> sum_list (map snd (snd p))) ct \<and>
         regex_counter data_floats data_regex traj_col num_ions_map \<noteq> Inl ZeroDivisionError"
proof -
  from regex_counter_totals_Inr[OF assms] have pc: "positive_counts ct"
    and keys: "Inr ` fst ` set ct = (\<lambda>line. py_get line traj_col) ` set (take (length data_regex) data_floats)"
    by simp_all
  have "1 \<le> sum_list (map snd (snd p))" if "p \<in> set ct" for p
    using positive_counts_sum[OF pc, of "fst p" "snd p"] that by simp
  then have sums: "list_all (\<lambda>p. 1 \<le> sum_list (map snd (snd p))) ct"
    by (simp add: list_all_iff)
  from ctp_positive_counts[OF pc, of num_ions_map] assms
  have "regex_counter data_floats data_regex traj_col num_ions_map \<noteq> Inl ZeroDivisionError"
    by (simp add: regex_counter_def)
  with keys sums show ?thesis by blast
qed

theorem counted_trajectories_have_observations_witness:
  "regex_counter_totals [[0, 5, 1], [1, 5, 1], [2, 9, 1], [3, 9, 2]]
       [(''a'', 0), (''a'', 0), (''b'', 1), (''b'', 1)] 2 = Inr [(1, [(0, 2), (1, 1)]), (2, [(1, 1)])] \<and>
   list_all (\<lambda>p. 1 \<le> sum_list (map snd (snd p))) [(1::real, [(0::int, 2::int), (1, 1)]), (2, [(1, 1)])] \<and>
   regex_counter [[0, 5, 1], [1, 5, 1], [2, 9, 1], [3, 9, 2]]
       [(''a'', 0), (''a'', 0), (''b'', 1), (''b'', 1)] 2 [10, 20] \<noteq> Inl ZeroDivisionError"
proof -
  have run: "regex_counter_totals [[0, 5, 1], [1, 5, 1], [2, 9, 1], [3, 9, 2]]
       [(''a'', 0), (''a'', 0), (''b'', 1), (''b'', 1)] 2 = Inr [(1, [(0, 2), (1, 1)]), (2, [(1, 1)])]"
    by (simp add: regex_counter_totals_def py_get_def count_incr_def dd_get_def)
  from counted_trajectories_have_observations[OF run, of "[10, 20]"] run
  show ?thesis by simp
qed




section \<open>The loops of \<open>compute_dihedral_timeseries\<close>\<close>

lemma py_get_eq: "py_get xs i = (if has_col xs i then Inr (py_nth xs i) else Inl IndexError)"
  by (auto simp: py_get_def has_col_def py_nth_def)

lemma series_step_Inr:
  assumes "series_step line t0 j c (D, T) = Inr (D1, T1)" and "same_keys D T"
  shows "has_col line c \<and> has_col line 0 \<and> same_keys D1 T1 \<and>
         (\<forall>t s. series_at D1 t s =
            (if t = t0 \<and> s = j then Some (series_list D t s @ [py_nth line c]) else series_at D t s)) \<and>
         (\<forall>t s. series_at T1 t s =
            (if t = t0 \<and> s = j then Some (series_list T t s @ [py_nth line 0]) else series_at T t s))"
proof -
  let ?di = "case D t0 of None \<Rightarrow> Map.empty | Some m \<Rightarrow> m"
  let ?ti = "case T t0 of None \<Rightarrow> Map.empty | Some m \<Rightarrow> m"
  have di: "?di s = series_at D t0 s" for s by (simp add: series_at_def split: option.splits)
  have ti: "?ti s = series_at T t0 s" for s by (simp add: series_at_def split: option.splits)
  from assms(1) have hc: "has_col line c" and h0: "has_col line 0"
    by (auto simp: series_step_def Let_def py_get_eq split: option.splits if_splits)
  from assms(2) have sk: "(series_at D t0 j = None) = (series_at T t0 j = None)"
    by (simp add: same_keys_def)
  have D1: "D1 = D(t0 \<mapsto> ?di(j \<mapsto> series_list D t0 j @ [py_nth line c]))"
   and T1: "T1 = T(t0 \<mapsto> ?ti(j \<mapsto> series_list T t0 j @ [py_nth line 0]))"
    using assms(1) hc h0 sk
    by (auto simp: series_step_def Let_def py_get_eq di ti series_list_def split: option.splits)
  have dD: "series_at D1 t s =
            (if t = t0 \<and> s = j then Some (series_list D t s @ [py_nth line c]) else series_at D t s)" for t s
    unfolding D1 by (simp add: series_at_def split: option.splits)
  have dT: "series_at T1 t s =
            (if t = t0 \<and> s = j then Some (series_list T t s @ [py_nth line 0]) else series_at T t s)" for t s
    unfolding T1 by (simp add: series_at_def split: option.splits)
  have "same_keys D1 T1"
    unfolding same_keys_def using assms(2) by (simp add: dD dT same_keys_def)
  with hc h0 dD dT show ?thesis by blast
qed

lemma series_step_returns:
  assumes "has_col line c" and "has_col line 0" and "same_keys D T"
  shows "\<exists>st. series_step line t0 j c (D, T) = Inr st"
proof -
  let ?di = "case D t0 of None \<Rightarrow> Map.empty | Some m \<Rightarrow> m"
  let ?ti = "case T t0 of None \<Rightarrow> Map.empty | Some m \<Rightarrow> m"
  have di: "?di s = series_at D t0 s" for s by (simp add: series_at_def split: option.splits)
  have ti: "?ti s = series_at T t0 s" for s by (simp add: series_at_def split: option.splits)
  from assms(3) have sk: "(series_at D t0 j = None) = (series_at T t0 j = None)"
    by (simp add: same_keys_def)
  show ?thesis
  proof (cases "series_at D t0 j")
    case None
    with assms(1,2) show ?thesis
      by (simp add: series_step_def Let_def py_get_eq di)
  next
    case (Some vs)
    with sk obtain tms where "series_at T t0 j = Some tms" by auto
    with Some assms(1,2) show ?thesis
      by (simp add: series_step_def Let_def py_get_eq di ti)
  qed
qed


lemma series_cols_Inr:
  assumes "series_cols line t0 (enumerate j cs) (D, T) = Inr (D', T')" and "same_keys D T"
  shows "list_all (has_col line) cs \<and> (cs \<noteq> [] \<longrightarrow> has_col line 0) \<and> same_keys D' T' \<and>
         (\<forall>t s. series_at D' t s =
            (if t = t0 \<and> j \<le> s \<and> s < j + length cs
             then Some (series_list D t s @ [py_nth line (cs ! (s - j))]) else series_at D t s)) \<and>
         (\<forall>t s. series_at T' t s =
            (if t = t0 \<and> j \<le> s \<and> s < j + length cs
             then Some (series_list T t s @ [py_nth line 0]) else series_at T t s))"
  using assms
proof (induction cs arbitrary: j D T)
  case Nil
  then have "D' = D" and "T' = T" by simp_all
  with Nil.prems(2) show ?case by auto
next
  case (Cons c cs)
  from Cons.prems(1) obtain D1 T1 where
    step: "series_step line t0 j c (D, T) = Inr (D1, T1)" and
    rest: "series_cols line t0 (enumerate (Suc j) cs) (D1, T1) = Inr (D', T')"
    by (cases "series_step line t0 j c (D, T)") auto
  from series_step_Inr[OF step Cons.prems(2)] have
    hc: "has_col line c" and h0: "has_col line 0" and sk1: "same_keys D1 T1" and
    d1: "\<And>t s. series_at D1 t s =
            (if t = t0 \<and> s = j then Some (series_list D t s @ [py_nth line c]) else series_at D t s)" and
    t1: "\<And>t s. series_at T1 t s =
            (if t = t0 \<and> s = j then Some (series_list T t s @ [py_nth line 0]) else series_at T t s)"
    by blast+
  from Cons.IH[OF rest sk1] have
    cols: "list_all (has_col line) cs" and sk': "same_keys D' T'" and
    d': "\<And>t s. series_at D' t s =
            (if t = t0 \<and> Suc j \<le> s \<and> s < Suc j + length cs
             then Some (series_list D1 t s @ [py_nth line (cs ! (s - Suc j))]) else series_at D1 t s)" and
    t': "\<And>t s. series_at T' t s =
            (if t = t0 \<and> Suc j \<le> s \<and> s < Suc j + length cs
             then Some (series_list T1 t s @ [py_nth line 0]) else series_at T1 t s)"
    by blast+
  have l1: "series_list D1 t s = series_list D t s" if "s \<noteq> j" for t s
    using that by (simp add: series_list_def d1)
  have l2: "series_list T1 t s = series_list T t s" if "s \<noteq> j" for t s
    using that by (simp add: series_list_def t1)
  have dD: "series_at D' t s =
            (if t = t0 \<and> j \<le> s \<and> s < j + length (c # cs)
             then Some (series_list D t s @ [py_nth line ((c # cs) ! (s - j))]) else series_at D t s)" for t s
  proof (cases "s = j")
    case True
    then show ?thesis by (simp add: d' d1)
  next
    case False
    then have "(c # cs) ! (s - j) = cs ! (s - Suc j)" if "j \<le> s"
    proof -
      from that False have "s - j = Suc (s - Suc j)" by simp
      then show ?thesis by simp
    qed
    with False show ?thesis by (auto simp: d' d1 l1)
  qed
  have dT: "series_at T' t s =
            (if t = t0 \<and> j \<le> s \<and> s < j + length (c # cs)
             then Some (series_list T t s @ [py_nth line 0]) else series_at T t s)" for t s
  proof (cases "s = j")
    case True
    then show ?thesis by (simp add: t' t1)
  next
    case False
    then show ?thesis by (auto simp: t' t1 l2)
  qed
  from hc h0 cols sk' dD dT show ?case by simp
qed

lemma series_cols_returns:
  assumes "list_all (has_col line) cs" and "cs \<noteq> [] \<longrightarrow> has_col line 0" and "same_keys D T"
  shows "\<exists>st. series_cols line t0 (enumerate j cs) (D, T) = Inr st"
  using assms
proof (induction cs arbitrary: j D T)
  case Nil
  then show ?case by simp
next
  case (Cons c cs)
  then have hc: "has_col line c" and h0: "has_col line 0" and cols: "list_all (has_col line) cs"
    by simp_all
  from series_step_returns[OF hc h0 Cons.prems(3), of t0 j]
  obtain D1 T1 where step: "series_step line t0 j c (D, T) = Inr (D1, T1)" by auto
  from series_step_Inr[OF step Cons.prems(3)] have sk1: "same_keys D1 T1" by blast
  from Cons.IH[OF cols _ sk1, of "Suc j"] h0
  obtain st where "series_cols line t0 (enumerate (Suc j) cs) (D1, T1) = Inr st" by auto
  with step show ?case by simp
qed


lemma rows_of_Cons:
  "rows_of (line # rest) traj_col t =
     (if py_get line traj_col = Inr t then line # rows_of rest traj_col t else rows_of rest traj_col t)"
  by (simp add: rows_of_def)

lemma series_lines_Inr:
  assumes "series_lines data_lines cols traj_col (D, T) = Inr (D', T')" and "same_keys D T"
  shows "same_keys D' T' \<and> list_all (\<lambda>line. row_ok line cols traj_col) data_lines \<and>
         (\<forall>t s. series_at D' t s =
            (if s < length cols \<and> rows_of data_lines traj_col t \<noteq> []
             then Some (series_list D t s @ map (\<lambda>line. py_nth line (cols ! s)) (rows_of data_lines traj_col t))
             else series_at D t s)) \<and>
         (\<forall>t s. series_at T' t s =
            (if s < length cols \<and> rows_of data_lines traj_col t \<noteq> []
             then Some (series_list T t s @ map (\<lambda>line. py_nth line 0) (rows_of data_lines traj_col t))
             else series_at T t s))"
  using assms
proof (induction data_lines arbitrary: D T)
  case Nil
  then have "D' = D" and "T' = T" by simp_all
  with Nil.prems(2) show ?case by (simp add: rows_of_def)
next
  case (Cons line rest)
  from Cons.prems(1) obtain t0 where t0: "py_get line traj_col = Inr t0"
    by (cases "py_get line traj_col") auto
  then have htc: "has_col line traj_col"
    by (simp add: py_get_eq split: if_splits)
  from Cons.prems(1) t0 obtain D1 T1 where
    cols: "series_cols line t0 (enumerate 0 cols) (D, T) = Inr (D1, T1)" and
    rest: "series_lines rest cols traj_col (D1, T1) = Inr (D', T')"
    by (cases "series_cols line t0 (enumerate 0 cols) (D, T)") auto
  from series_cols_Inr[OF cols Cons.prems(2)] have
    hcs: "list_all (has_col line) cols" and h0: "cols \<noteq> [] \<longrightarrow> has_col line 0" and
    sk1: "same_keys D1 T1" and
    d1: "\<And>t s. series_at D1 t s =
            (if t = t0 \<and> s < length cols
             then Some (series_list D t s @ [py_nth line (cols ! s)]) else series_at D t s)" and
    t1: "\<And>t s. series_at T1 t s =
            (if t = t0 \<and> s < length cols
             then Some (series_list T t s @ [py_nth line 0]) else series_at T t s)"
    by simp_all
  from htc hcs h0 have ok: "row_ok line cols traj_col" by (auto simp: row_ok_def)
  from Cons.IH[OF rest sk1] have
    sk': "same_keys D' T'" and oks: "list_all (\<lambda>line. row_ok line cols traj_col) rest" and
    d': "\<And>t s. series_at D' t s =
            (if s < length cols \<and> rows_of rest traj_col t \<noteq> []
             then Some (series_list D1 t s @ map (\<lambda>line. py_nth line (cols ! s)) (rows_of rest traj_col t))
             else series_at D1 t s)" and
    t': "\<And>t s. series_at T' t s =
            (if s < length cols \<and> rows_of rest traj_col t \<noteq> []
             then Some (series_list T1 t s @ map (\<lambda>line. py_nth line 0) (rows_of rest traj_col t))
             else series_at T1 t s)"
    by blast+
  have dD: "series_at D' t s =
            (if s < length cols \<and> rows_of (line # rest) traj_col t \<noteq> []
             then Some (series_list D t s @ map (\<lambda>line. py_nth line (cols ! s)) (rows_of (line # rest) traj_col t))
             else series_at D t s)" for t s
    by (auto simp: d' d1 rows_of_Cons t0 series_list_def)
  have dT: "series_at T' t s =
            (if s < length cols \<and> rows_of (line # rest) traj_col t \<noteq> []
             then Some (series_list T t s @ map (\<lambda>line. py_nth line 0) (rows_of (line # rest) traj_col t))
             else series_at T t s)" for t s
    by (auto simp: t' t1 rows_of_Cons t0 series_list_def)
  from sk' ok oks dD dT show ?case by simp
qed

lemma series_lines_returns:
  assumes "list_all (\<lambda>line. row_ok line cols traj_col) data_lines" and "same_keys D T"
  shows "\<exists>st. series_lines data_lines cols traj_col (D, T) = Inr st"
  using assms
proof (induction data_lines arbitrary: D T)
  case Nil
  then show ?case by simp
next
  case (Cons line rest)
  then have ok: "row_ok line cols traj_col" and oks: "list_all (\<lambda>line. row_ok line cols traj_col) rest"
    by simp_all
  from ok have t0: "py_get line traj_col = Inr (py_nth line traj_col)"
    by (simp add: row_ok_def py_get_eq)
  from ok have "list_all (has_col line) cols" and "cols \<noteq> [] \<longrightarrow> has_col line 0"
    by (auto simp: row_ok_def)
  from series_cols_returns[OF this Cons.prems(2), of "py_nth line traj_col" 0]
  obtain D1 T1 where cols: "series_cols line (py_nth line traj_col) (enumerate 0 cols) (D, T) = Inr (D1, T1)"
    by auto
  from series_cols_Inr[OF cols Cons.prems(2)] have "same_keys D1 T1" by blast
  from Cons.IH[OF oks this] obtain st where "series_lines rest cols traj_col (D1, T1) = Inr st"
    by blast
  with t0 cols show ?case by simp
qed

section \<open>SeriesReshaper: the series and time lists\<close>

text \<open>
  Claim C7. For every list of rows that have the columns read, \<open>compute_dihedral_timeseries\<close>
  returns two maps; for every trajectory \<open>t\<close> with at least one row and every series
  index \<open>s\<close>, the first map holds at \<open>(t, s)\<close> exactly the values at the series' column
  of \<open>t\<close>'s rows, in input order, and the second holds the values at column \<open>0\<close> of the
  same rows. Nothing is dropped, reordered or aggregated, and no other key is present.
\<close>

theorem series_keep_rows_in_order:
  assumes "list_all (\<lambda>line. row_ok line dihedral_cols traj_col) data_lines"
  shows "\<exists>series times.
           compute_dihedral_timeseries data_lines dihedral_cols traj_col = Inr (series, times) \<and>
           (\<forall>t s. series_at series t s =
              (if s < length dihedral_cols \<and> rows_of data_lines traj_col t \<noteq> []
               then Some (map (\<lambda>line. py_nth line (dihedral_cols ! s)) (rows_of data_lines traj_col t))
               else None)) \<and>
           (\<forall>t s. series_at times t s =
              (if s < length dihedral_cols \<and> rows_of data_lines traj_col t \<noteq> []
               then Some (map (\<lambda>line. py_nth line 0) (rows_of data_lines traj_col t))
               else None))"
proof -
  have sk: "same_keys Map.empty Map.empty" by (simp add: same_keys_def)
  from series_lines_returns[OF assms sk] obtain series times where
    run: "series_lines data_lines dihedral_cols traj_col (Map.empty, Map.empty) = Inr (series, times)"
    by auto
  have e: "series_at Map.empty t s = None" "series_list Map.empty t s = []" for t s
    by (simp_all add: series_at_def series_list_def)
  from series_lines_Inr[OF run sk] have
    "\<forall>t s. series_at series t s =
              (if s < length dihedral_cols \<and> rows_of data_lines traj_col t \<noteq> []
               then Some (map (\<lambda>line. py_nth line (dihedral_cols ! s)) (rows_of data_lines traj_col t))
               else None)"
    and "\<forall>t s. series_at times t s =
              (if s < length dihedral_cols \<and> rows_of data_lines traj_col t \<noteq> []
               then Some (map (\<lambda>line. py_nth line 0) (rows_of data_lines traj_col t))
               else None)"
    by (simp_all add: e)
  with run show ?thesis by (simp add: compute_dihedral_timeseries_def)
qed

theorem series_keep_rows_in_order_witness:
  "list_all (\<lambda>line. row_ok line [1] 2) [[0, 5, 1], [1, 6, 2], [2, 9, 1]] \<and>
   (\<exists>series times.
      compute_dihedral_timeseries [[0, 5, 1], [1, 6, 2], [2, 9, 1]] [1] 2 = Inr (series, times) \<and>
      series_at series 1 0 = Some [5, 9] \<and> series_at times 1 0 = Some [0, 2] \<and>
      series_at series 2 0 = Some [6] \<and> series_at times 2 0 = Some [1] \<and>
      series_at series 1 1 = None \<and> series_at series 3 0 = None)"
proof -
  have ok: "list_all (\<lambda>line. row_ok line [1] 2) [[0, 5, 1], [1, 6, 2], [2, 9, 1]]"
    by (simp add: row_ok_def has_col_def)
  from series_keep_rows_in_order[OF ok] obtain series times where
    run: "compute_dihedral_timeseries [[0, 5, 1], [1, 6, 2], [2, 9, 1]] [1] 2 = Inr (series, times)" and
    d: "\<And>t s. series_at series t s =
              (if s < length [1::int] \<and> rows_of [[0, 5, 1], [1, 6, 2], [2, 9, 1]] 2 t \<noteq> []
               then Some (map (\<lambda>line. py_nth line ([1] ! s)) (rows_of [[0, 5, 1], [1, 6, 2], [2, 9, 1]] 2 t))
               else None)" and
    t: "\<And>t s. series_at times t s =
              (if s < length [1::int] \<and> rows_of [[0, 5, 1], [1, 6, 2], [2, 9, 1]] 2 t \<noteq> []
               then Some (map (\<lambda>line. py_nth line 0) (rows_of [[0, 5, 1], [1, 6, 2], [2, 9, 1]] 2 t))
               else None)"
    by blast
  have "series_at series 1 0 = Some [5, 9]" "series_at times 1 0 = Some [0, 2]"
    "series_at series 2 0 = Some [6]" "series_at times 2 0 = Some [1]"
    "series_at series 1 1 = None" "series_at series 3 0 = None"
    by (simp_all add: d t rows_of_def py_get_def py_nth_def)
  with ok run show ?thesis by blast
qed

section \<open>Pooling and binning\<close>

lemma get_cols_eq:
  "get_cols line cols = (if list_all (has_col line) cols then Inr (map (py_nth line) cols) else Inl IndexError)"
proof (induction cols)
  case Nil
  show ?case by simp
next
  case (Cons c cols)
  then show ?case by (cases "has_col line c") (simp_all add: py_get_eq)
qed

lemma pool_cols_eq:
  "pool_cols acc data_lines cols =
     (if rows_have data_lines cols then Inr (acc @ pooled_values data_lines cols) else Inl IndexError)"
proof (induction data_lines arbitrary: acc)
  case Nil
  show ?case by (simp add: rows_have_def pooled_values_def)
next
  case (Cons line rest)
  show ?case
  proof (cases "list_all (has_col line) cols")
    case True
    with Cons[of "acc @ map (py_nth line) cols"] show ?thesis
      by (simp add: get_cols_eq rows_have_def pooled_values_def)
  next
    case False
    then show ?thesis by (simp add: get_cols_eq rows_have_def)
  qed
qed

lemma half_open_bins_sum:
  fixes e :: "nat \<Rightarrow> real"
  assumes "\<And>i j. i \<le> j \<Longrightarrow> e i \<le> e j"
  shows "(\<Sum>i\<leftarrow>[0..<n]. if e i \<le> v \<and> v < e (Suc i) then 1 else 0) = (if e 0 \<le> v \<and> v < e n then 1 else (0::nat))"
proof (induction n)
  case 0
  show ?case by simp
next
  case (Suc n)
  have "e 0 \<le> e n" "e n \<le> e (Suc n)" by (simp_all add: assms)
  with Suc show ?case by auto
qed

lemma in_bin_edges:
  assumes "i < bins"
  shows "in_bin (bin_edges mn mx bins) bins i v \<longleftrightarrow>
           mn + real i * (mx - mn) / real bins \<le> v \<and>
           (if Suc i = bins then v \<le> mn + real (Suc i) * (mx - mn) / real bins
            else v < mn + real (Suc i) * (mx - mn) / real bins)"
proof -
  have "bin_edges mn mx bins ! k = mn + real k * (mx - mn) / real bins" if "k \<le> bins" for k
    using that unfolding bin_edges_def by (simp add: nth_map_upt del: upt_Suc)
  with assms show ?thesis by (simp add: in_bin_def)
qed

lemma bins_partition:
  assumes "mn < mx" and "0 < bins"
  shows "(\<Sum>i\<leftarrow>[0..<bins]. if in_bin (bin_edges mn mx bins) bins i v then 1 else 0)
           = (if mn \<le> v \<and> v \<le> mx then 1 else (0::nat))"
proof -
  define e where "e i = mn + real i * (mx - mn) / real bins" for i
  have mono: "e i \<le> e j" if "i \<le> j" for i j
    using that assms by (simp add: e_def divide_right_mono mult_right_mono)
  obtain n where n: "bins = Suc n" using assms(2) by (cases bins) auto
  have e0: "e 0 = mn" by (simp add: e_def)
  have eb: "e (Suc n) = mx" using n by (simp add: e_def)
  have inner: "(if in_bin (bin_edges mn mx bins) bins i v then 1 else 0) =
               (if e i \<le> v \<and> v < e (Suc i) then 1 else (0::nat))" if "i \<in> set [0..<n]" for i
    using that n by (simp add: in_bin_edges e_def)
  have last: "in_bin (bin_edges mn mx bins) bins n v \<longleftrightarrow> e n \<le> v \<and> v \<le> e (Suc n)"
    using n by (simp add: in_bin_edges e_def)
  have "(\<Sum>i\<leftarrow>[0..<bins]. if in_bin (bin_edges mn mx bins) bins i v then 1 else 0) =
        (\<Sum>i\<leftarrow>[0..<n]. if in_bin (bin_edges mn mx bins) bins i v then 1 else 0) +
        (if in_bin (bin_edges mn mx bins) bins n v then 1 else (0::nat))"
    by (simp add: n)
  also have "(\<Sum>i\<leftarrow>[0..<n]. if in_bin (bin_edges mn mx bins) bins i v then 1 else 0) =
        (\<Sum>i\<leftarrow>[0..<n]. if e i \<le> v \<and> v < e (Suc i) then 1 else (0::nat))"
    using inner by (intro arg_cong[where f = sum_list] map_cong) auto
  also have "\<dots> = (if e 0 \<le> v \<and> v < e n then 1 else 0)"
    using mono by (rule half_open_bins_sum)
  finally show ?thesis
    using mono[of 0 n] mono[of n "Suc n"] by (auto simp: last e0 eb)
qed

lemma bin_counts_sum:
  assumes "mn < mx" and "0 < bins"
  shows "sum_list (map (\<lambda>i. length (filter (in_bin (bin_edges mn mx bins) bins i) a)) [0..<bins])
           = length (filter (\<lambda>v. mn \<le> v \<and> v \<le> mx) a)"
proof (induction a)
  case Nil
  show ?case by simp
next
  case (Cons v a)
  let ?P = "in_bin (bin_edges mn mx bins) bins"
  have "sum_list (map (\<lambda>i. length (filter (?P i) (v # a))) [0..<bins]) =
        (\<Sum>i\<leftarrow>[0..<bins]. (if ?P i v then 1 else 0) + length (filter (?P i) a))"
    by (intro arg_cong[where f = sum_list] map_cong) auto
  also have "\<dots> = (\<Sum>i\<leftarrow>[0..<bins]. if ?P i v then 1 else 0) + (\<Sum>i\<leftarrow>[0..<bins]. length (filter (?P i) a))"
    by (simp add: sum_list_addf)
  finally show ?case
    using Cons bins_partition[OF assms, of v] by simp
qed

section \<open>HistogramBuilder: the bin counts\<close>

text \<open>
  Claim C6, as amended. For every list of rows that have the requested columns, every range
  with \<open>histmin < histmax\<close> and every bin count \<open>b \<ge> 1\<close>, \<open>compute_rotamer_histogram\<close>
  returns \<open>b\<close> bin counts and \<open>b + 1\<close> edges over the values of all requested columns
  pooled into one list. The counts sum to the number of pooled values in the closed range
  \<open>[histmin, histmax]\<close>, hence to the number of all values when they lie in
  \<open>[histmin, histmax)\<close>. A value equal to \<open>histmax\<close> is not excluded: the last bin is
  closed and counts it.
\<close>

theorem histogram_counts_pooled_values:
  assumes "histmin < histmax" and "1 \<le> histbins" and "rows_have data_lines dihedral_cols"
  shows "\<exists>histo edges.
           compute_rotamer_histogram data_lines dihedral_cols histmin histmax histbins = Inr (histo, edges) \<and>
           length histo = nat histbins \<and> length edges = nat histbins + 1 \<and>
           sum_list histo =
             length (filter (\<lambda>v. histmin \<le> v \<and> v \<le> histmax) (pooled_values data_lines dihedral_cols)) \<and>
           last histo =
             length (filter (\<lambda>v. edges ! (nat histbins - 1) \<le> v \<and> v \<le> histmax)
                       (pooled_values data_lines dihedral_cols))"
proof -
  let ?a = "pooled_values data_lines dihedral_cols"
  let ?b = "nat histbins"
  let ?edges = "bin_edges histmin histmax ?b"
  let ?histo = "map (\<lambda>i. length (filter (in_bin ?edges ?b i) ?a)) [0..<?b]"
  from assms(2) have b: "0 < ?b" by simp
  then obtain n where n: "?b = Suc n" by (cases ?b) auto
  from assms have run: "compute_rotamer_histogram data_lines dihedral_cols histmin histmax histbins = Inr (?histo, ?edges)"
    by (simp add: compute_rotamer_histogram_def pool_cols_eq np_histogram_def np_range_def Let_def)
  have len: "length ?histo = ?b" by simp
  have elen: "length ?edges = ?b + 1" by (simp add: bin_edges_def)
  have total: "sum_list ?histo = length (filter (\<lambda>v. histmin \<le> v \<and> v \<le> histmax) ?a)"
    using bin_counts_sum[OF assms(1) b] .
  have top: "?edges ! ?b = histmax"
    unfolding bin_edges_def using b by (simp add: nth_map_upt del: upt_Suc)
  have "last ?histo = length (filter (in_bin ?edges ?b n) ?a)"
    by (simp add: n)
  also have "in_bin ?edges ?b n = (\<lambda>v. ?edges ! (?b - 1) \<le> v \<and> v \<le> histmax)"
    using top by (simp add: in_bin_def n fun_eq_iff)
  finally have last: "last ?histo = length (filter (\<lambda>v. ?edges ! (?b - 1) \<le> v \<and> v \<le> histmax) ?a)" .
  from run len elen total last show ?thesis by blast
qed

theorem histogram_counts_pooled_values_witness:
  "(0::real) < 360 \<and> (1::int) \<le> 4 \<and> rows_have [[0, 0], [90, 90], [180, 180]] [0, 1] \<and>
   pooled_values [[0, 0], [90, 90], [180, 180]] [0, 1] = [0, 0, 90, 90, 180, 180] \<and>
   compute_rotamer_histogram [[0, 0], [90, 90], [180, 180]] [0, 1] 0 360 4 =
     Inr ([2, 2, 2, 0], [0, 90, 180, 270, 360]) \<and>
   length [2, 2, 2, 0::nat] = nat 4 \<and>
   sum_list [2, 2, 2, 0::nat] = length (filter (\<lambda>v. 0 \<le> v \<and> v \<le> 360) [0, 0, 90, 90, 180, 180::real])"
proof -
  have r: "(0::real) < 360" and b: "(1::int) \<le> 4" by simp_all
  have rows: "rows_have [[0, 0], [90, 90], [180, 180]] [0, 1]"
    by (simp add: rows_have_def has_col_def)
  have pooled: "pooled_values [[0, 0], [90, 90], [180, 180]] [0, 1] = [0, 0, 90, 90, 180, 180]"
    by (simp add: pooled_values_def py_nth_def)
  have run: "compute_rotamer_histogram [[0, 0], [90, 90], [180, 180]] [0, 1] 0 360 4 =
     Inr ([2, 2, 2, 0], [0, 90, 180, 270, 360])"
    by (simp add: compute_rotamer_histogram_def np_histogram_def np_range_def bin_edges_def in_bin_def
        py_get_def Let_def upt_rec)
  from histogram_counts_pooled_values[OF r b rows] r b rows pooled run
  show ?thesis by simp
qed

text \<open>
  Claim C6 as first stated fails for a value equal to \<open>histmax\<close>: with the range
  \<open>[0, 360]\<close> and four bins the single value \<open>360\<close> is counted in the last bin.
\<close>

theorem last_bin_closed_counterexample:
  "pooled_values [[360]] [0] = [360] \<and>
   compute_rotamer_histogram [[360]] [0] 0 360 4 = Inr ([0, 0, 0, 1], [0, 90, 180, 270, 360]) \<and>
   last [0, 0, 0, 1::nat] = 1"
  by (simp add: pooled_values_def py_nth_def compute_rotamer_histogram_def np_histogram_def np_range_def
      bin_edges_def in_bin_def py_get_def Let_def upt_rec)

section \<open>The masked assignments of \<open>compute_rotamer_rotamer_histogram\<close>\<close>

lemma py_min_Inr: "py_min xs = Inr m \<Longrightarrow> xs \<noteq> [] \<and> m = Min (set xs)"
  by (cases xs) (simp_all add: Min.set_eq_fold[symmetric] del: set_simps)

lemma py_min_returns: "xs \<noteq> [] \<Longrightarrow> \<exists>m. py_min xs = Inr m"
  by (cases xs) simp_all

lemma map2_same: "map2 F (map f xs) (map g xs) = map (\<lambda>x. F (f x) (g x)) xs"
  by (induction xs) simp_all

lemma select_same: "map snd (filter fst (zip (map P xs) (map g xs))) = map g (filter P xs)"
  by (induction xs) simp_all

lemma mask_set_eq:
  "mask_set (map (map P) h) c (map (map g) h) = map (map (\<lambda>x. if P x then c else g x)) h"
  unfolding mask_set_def by (simp add: map2_same)

lemma mask_map_eq:
  "mask_map (map (map P) h) f (map (map g) h) = map (map (\<lambda>x. if P x then f (g x) else g x)) h"
  unfolding mask_map_def by (simp add: map2_same)

lemma mask_select_eq:
  "mask_select (map (map P) h) (map (map g) h) = map g (filter P (concat h))"
  unfolding mask_select_def
  by (induction h) (simp_all add: select_same)

lemma free_energy_eq:
  "free_energy kBT max_eng histo =
     (case py_min (energies kBT histo) of
        Inl e \<Rightarrow> Inl e
      | Inr m \<Rightarrow> Inr (map (map (\<lambda>p. if 0 < p then - kBT * ln p - \<bar>m\<bar> else max_eng)) histo))"
proof -
  let ?low = "map (map (\<lambda>p. p \<le> 0)) histo"
  let ?high = "map (map (\<lambda>p. 0 < p)) histo"
  let ?g1 = "\<lambda>p::real. if p \<le> 0 then max_eng else p"
  let ?g2 = "\<lambda>p::real. if 0 < p then - kBT * ln p else max_eng"
  have id: "map (map (\<lambda>x. x)) histo = histo" by (induction histo) simp_all
  have h1: "mask_set ?low max_eng histo = map (map ?g1) histo"
    using mask_set_eq[of "\<lambda>p. p \<le> 0" histo max_eng "\<lambda>x. x"] by (simp add: id)
  have h2: "mask_map ?high (\<lambda>p. - kBT * ln p) (map (map ?g1) histo) = map (map ?g2) histo"
  proof -
    have "(\<lambda>x. if 0 < x then - kBT * ln (?g1 x) else ?g1 x) = ?g2" by (auto simp: fun_eq_iff)
    with mask_map_eq[of "\<lambda>p. 0 < p" histo "\<lambda>p. - kBT * ln p" ?g1] show ?thesis by simp
  qed
  have sel: "mask_select ?high (map (map ?g2) histo) = energies kBT histo"
  proof -
    have "map ?g2 (filter (\<lambda>p. 0 < p) (concat histo)) = energies kBT histo"
      unfolding energies_def by (intro map_cong) auto
    with mask_select_eq[of "\<lambda>p. 0 < p" histo ?g2] show ?thesis by simp
  qed
  have h3: "mask_map ?high (\<lambda>e. e - \<bar>m\<bar>) (map (map ?g2) histo) =
            map (map (\<lambda>p. if 0 < p then - kBT * ln p - \<bar>m\<bar> else max_eng)) histo" for m
  proof -
    have "(\<lambda>x. if 0 < x then ?g2 x - \<bar>m\<bar> else ?g2 x) =
          (\<lambda>p. if 0 < p then - kBT * ln p - \<bar>m\<bar> else max_eng)" by (auto simp: fun_eq_iff)
    with mask_map_eq[of "\<lambda>p. 0 < p" histo "\<lambda>e. e - \<bar>m\<bar>" ?g2] show ?thesis by simp
  qed
  show ?thesis
    unfolding free_energy_def Let_def h1 h2 sel
    by (simp add: h3 split: sum.splits)
qed

lemma nth_map_map:
  "i < length h \<Longrightarrow> j < length (h ! i) \<Longrightarrow> map (map f) h ! i ! j = f (h ! i ! j)"
  by simp

lemma cell_in_concat: "i < length h \<Longrightarrow> j < length (h ! i) \<Longrightarrow> h ! i ! j \<in> set (concat h)"
  by (metis nth_mem set_concat UN_I)


lemma np_range_Inr: "np_range a b n = Inr (mn, mx, bins) \<Longrightarrow> mn < mx \<and> 0 < bins"
  by (auto simp: np_range_def split: if_splits)

lemma np_histogram2d_Some:
  assumes "np_histogram2d x y histmin histmax histbins = Inr (Some histo, xedges, yedges)"
  shows "(\<forall>p \<in> set (concat histo). 0 \<le> p) \<and> (\<exists>p \<in> set (concat histo). 0 < p)"
proof -
  from assms obtain mn mx bins where r: "np_range histmin histmax histbins = Inr (mn, mx, bins)"
    by (cases "np_range histmin histmax histbins") (auto simp: np_histogram2d_def split: if_splits)
  from np_range_Inr[OF r] have lt: "mn < mx" and b: "0 < bins" by simp_all
  define edges where "edges = bin_edges mn mx bins"
  define counts where "counts = map (\<lambda>i. map (\<lambda>j. length (filter (\<lambda>(u, v). in_bin edges bins i u \<and> in_bin edges bins j v)
                                                         (zip x y))) [0..<bins]) [0..<bins]"
  define s where "s = sum_list (map sum_list counts)"
  define area where "area = ((mx - mn) / real bins) * ((mx - mn) / real bins)"
  from lt b have area: "0 < area" by (simp add: area_def)
  from assms r have s0: "s \<noteq> 0" and histo: "histo = map (map (\<lambda>c. real c / area / real s)) counts"
    by (auto simp: np_histogram2d_def Let_def edges_def counts_def s_def area_def split: if_splits)
  have cells: "set (concat histo) = (\<lambda>c. real c / area / real s) ` set (concat counts)"
    unfolding histo by (induction counts) auto
  have "sum_list (concat counts) = s"
    unfolding s_def by (induction counts) simp_all
  with s0 obtain c where c: "c \<in> set (concat counts)" "0 < c"
    by (metis sum_list_eq_0_iff not_gr_zero)
  with area s0 have "0 < real c / area / real s" by simp
  with c(1) have pos: "\<exists>p \<in> set (concat histo). 0 < p" unfolding cells by blast
  from area have "\<forall>p \<in> set (concat histo). 0 \<le> p" unfolding cells by simp
  with pos show ?thesis by blast
qed

lemma joint_histogram_Some:
  assumes "joint_histogram data_lines chi1_cols chi2_cols histmin histmax histbins = Inr (Some histo, xedges, yedges)"
  shows "(\<forall>p \<in> set (concat histo). 0 \<le> p) \<and> (\<exists>p \<in> set (concat histo). 0 < p)"
proof -
  from assms obtain x y where "np_histogram2d x y histmin histmax histbins = Inr (Some histo, xedges, yedges)"
    by (auto simp: joint_histogram_def split: sum.splits)
  then show ?thesis by (rule np_histogram2d_Some)
qed

lemma surface_of_histogram:
  assumes "joint_histogram data_lines chi1_cols chi2_cols histmin histmax histbins = Inr (Some histo, xedges, yedges)"
  shows "energies kBT histo \<noteq> [] \<and>
         compute_rotamer_rotamer_histogram data_lines chi1_cols chi2_cols kBT max_eng histmin histmax histbins =
           Inr (map (map (\<lambda>p. if 0 < p then - kBT * ln p - \<bar>Min (set (energies kBT histo))\<bar> else max_eng)) histo,
                xedges, yedges)"
proof -
  from joint_histogram_Some[OF assms] obtain p where "p \<in> set (concat histo)" "0 < p" by blast
  then have ne: "energies kBT histo \<noteq> []"
    by (auto simp: energies_def filter_empty_conv)
  from py_min_returns[OF ne] obtain m where m: "py_min (energies kBT histo) = Inr m" by blast
  from py_min_Inr[OF m] have "m = Min (set (energies kBT histo))" by simp
  with assms m ne show ?thesis
    by (simp add: compute_rotamer_rotamer_histogram_def free_energy_eq)
qed

section \<open>FreeEnergySurfaceBuilder: the cells of the surface\<close>

text \<open>
  Claim C4. Whenever the normalised joint histogram exists (some sample lies in the range),
  \<open>compute_rotamer_rotamer_histogram\<close> returns a surface of the same shape. Every cell
  of the histogram is non-negative; the surface holds exactly \<open>max_eng\<close> at every cell of
  zero probability, untouched by the shift, and the logarithm is only ever taken of a
  positive cell, so no cell is undefined. Every cell of non-zero probability is at least
  the global minimum over such cells after the shift, which is \<open>m - \<bar>m\<bar>\<close> for the minimum
  \<open>m\<close> before the shift and is attained.
\<close>

theorem zero_cells_at_ceiling:
  assumes "joint_histogram data_lines chi1_cols chi2_cols histmin histmax histbins = Inr (Some histo, xedges, yedges)"
    and "i < length histo" and "j < length (histo ! i)"
  shows "\<exists>surface.
           compute_rotamer_rotamer_histogram data_lines chi1_cols chi2_cols kBT max_eng histmin histmax histbins =
             Inr (surface, xedges, yedges) \<and>
           length surface = length histo \<and> length (surface ! i) = length (histo ! i) \<and>
           0 \<le> histo ! i ! j \<and>
           (histo ! i ! j = 0 \<longrightarrow> surface ! i ! j = max_eng) \<and>
           (0 < histo ! i ! j \<longrightarrow>
              Min (set (energies kBT histo)) - \<bar>Min (set (energies kBT histo))\<bar> \<le> surface ! i ! j) \<and>
           (\<exists>i' j'. i' < length histo \<and> j' < length (histo ! i') \<and> 0 < histo ! i' ! j' \<and>
              surface ! i' ! j' = Min (set (energies kBT histo)) - \<bar>Min (set (energies kBT histo))\<bar>)"
proof -
  let ?m = "Min (set (energies kBT histo))"
  let ?f = "\<lambda>p. if 0 < p then - kBT * ln p - \<bar>?m\<bar> else max_eng"
  let ?surface = "map (map ?f) histo"
  from surface_of_histogram[OF assms(1), of kBT max_eng] have
    ne: "energies kBT histo \<noteq> []" and
    run: "compute_rotamer_rotamer_histogram data_lines chi1_cols chi2_cols kBT max_eng histmin histmax histbins =
             Inr (?surface, xedges, yedges)"
    by simp_all
  have cell: "?surface ! a ! b = ?f (histo ! a ! b)" if "a < length histo" "b < length (histo ! a)" for a b
    using that by simp
  from joint_histogram_Some[OF assms(1)] cell_in_concat[OF assms(2,3)]
  have nonneg: "0 \<le> histo ! i ! j" by blast
  have zero: "histo ! i ! j = 0 \<longrightarrow> ?surface ! i ! j = max_eng"
    using cell[OF assms(2,3)] by simp
  have low: "0 < histo ! i ! j \<longrightarrow> ?m - \<bar>?m\<bar> \<le> ?surface ! i ! j"
  proof
    assume pos: "0 < histo ! i ! j"
    with cell_in_concat[OF assms(2,3)] have "histo ! i ! j \<in> set (filter (\<lambda>p. 0 < p) (concat histo))"
      by simp
    then have "- kBT * ln (histo ! i ! j) \<in> set (energies kBT histo)"
      unfolding energies_def set_map by (rule imageI)
    then have "?m \<le> - kBT * ln (histo ! i ! j)" by simp
    with pos cell[OF assms(2,3)] show "?m - \<bar>?m\<bar> \<le> ?surface ! i ! j" by simp
  qed
  have att: "\<exists>i' j'. i' < length histo \<and> j' < length (histo ! i') \<and> 0 < histo ! i' ! j' \<and>
              ?surface ! i' ! j' = ?m - \<bar>?m\<bar>"
  proof -
    from ne have "?m \<in> set (energies kBT histo)" by (intro Min_in) simp_all
    then obtain p where p: "p \<in> set (concat histo)" "0 < p" "?m = - kBT * ln p"
      by (auto simp: energies_def)
    from p(1) obtain row where row: "row \<in> set histo" "p \<in> set row" by auto
    then obtain i' where i': "i' < length histo" "histo ! i' = row" by (auto simp: in_set_conv_nth)
    from row(2) obtain j' where j': "j' < length row" "row ! j' = p" by (auto simp: in_set_conv_nth)
    from i' j' have c: "histo ! i' ! j' = p" "j' < length (histo ! i')" by simp_all
    from cell[OF i'(1) c(2)] c(1) p(2,3) have "?surface ! i' ! j' = ?m - \<bar>?m\<bar>" by simp
    with i'(1) c p(2) show ?thesis by blast
  qed
  have "length ?surface = length histo" "length (?surface ! i) = length (histo ! i)"
    using assms(2) by simp_all
  with run nonneg zero low att show ?thesis by blast
qed

theorem zero_cells_at_ceiling_witness:
  "joint_histogram [[1 / 2, 1 / 2]] [0] [1] 0 2 2 = Inr (Some [[1, 0], [0, 0]], [0, 1, 2], [0, 1, 2]) \<and>
   (0::nat) < length [[1, 0], [0, 0::real]] \<and> (1::nat) < length ([[1, 0], [0, 0::real]] ! 0) \<and>
   [[1, 0], [0, 0::real]] ! 0 ! 1 = 0 \<and>
   compute_rotamer_rotamer_histogram [[1 / 2, 1 / 2]] [0] [1] (149 / 250) 7 0 2 2 =
     Inr ([[0, 7], [7, 7]], [0, 1, 2], [0, 1, 2]) \<and>
   [[0, 7], [7, 7::real]] ! 0 ! 1 = 7"
proof -
  have jh: "joint_histogram [[1 / 2, 1 / 2]] [0] [1] 0 2 2 = Inr (Some [[1, 0], [0, 0]], [0, 1, 2], [0, 1, 2])"
    by (simp add: joint_histogram_def np_histogram2d_def np_range_def bin_edges_def in_bin_def py_get_def
        Let_def upt_rec del: sum_list_eq_0_iff)
  have cr: "compute_rotamer_rotamer_histogram [[1 / 2, 1 / 2]] [0] [1] (149 / 250) 7 0 2 2 =
     Inr ([[0, 7], [7, 7]], [0, 1, 2], [0, 1, 2])"
    by (simp add: compute_rotamer_rotamer_histogram_def jh free_energy_def mask_set_def mask_map_def
        mask_select_def Let_def)
  have i: "(0::nat) < length [[1, 0], [0, 0::real]]" and j: "(1::nat) < length ([[1, 0], [0, 0::real]] ! 0)"
    by simp_all
  from zero_cells_at_ceiling[OF jh i j, of "149 / 250" 7] jh cr
  show ?thesis by simp
qed

text \<open>
  Claim C5. For every cell of the normalised joint histogram with non-zero probability
  \<open>p\<close>, the surface holds \<open>(- kBT * ln p) - \<bar>m\<bar>\<close>, where \<open>m\<close> is the minimum of
  \<open>- kBT * ln p\<close> over all cells of non-zero probability: the shift subtracts the absolute
  value of the minimum, not the minimum.
\<close>

theorem nonzero_cells_shifted_by_abs_min:
  assumes "joint_histogram data_lines chi1_cols chi2_cols histmin histmax histbins = Inr (Some histo, xedges, yedges)"
    and "i < length histo" and "j < length (histo ! i)" and "0 < histo ! i ! j"
  shows "\<exists>surface.
           compute_rotamer_rotamer_histogram data_lines chi1_cols chi2_cols kBT max_eng histmin histmax histbins =
             Inr (surface, xedges, yedges) \<and>
           surface ! i ! j = - kBT * ln (histo ! i ! j) - \<bar>Min (set (energies kBT histo))\<bar>"
proof -
  from surface_of_histogram[OF assms(1), of kBT max_eng] assms(2,3,4) show ?thesis by simp
qed

theorem nonzero_cells_shifted_by_abs_min_witness:
  "joint_histogram [[1 / 4, 1 / 4]] [0] [1] 0 1 2 = Inr (Some [[4, 0], [0, 0]], [0, 1 / 2, 1], [0, 1 / 2, 1]) \<and>
   (0::nat) < length [[4, 0], [0, 0::real]] \<and> (0::nat) < length ([[4, 0], [0, 0::real]] ! 0) \<and>
   (0::real) < [[4, 0], [0, 0]] ! 0 ! 0 \<and>
   compute_rotamer_rotamer_histogram [[1 / 4, 1 / 4]] [0] [1] (149 / 250) 7 0 1 2 =
     Inr ([[- (149 / 125) * ln 4, 7], [7, 7]], [0, 1 / 2, 1], [0, 1 / 2, 1]) \<and>
   [[- (149 / 125) * ln 4, 7], [7, 7::real]] ! 0 ! 0 =
     - (149 / 250) * ln ([[4, 0], [0, 0]] ! 0 ! 0) - \<bar>Min (set (energies (149 / 250) [[4, 0], [0, 0]]))\<bar>"
proof -
  have jh: "joint_histogram [[1 / 4, 1 / 4]] [0] [1] 0 1 2 = Inr (Some [[4, 0], [0, 0]], [0, 1 / 2, 1], [0, 1 / 2, 1])"
    by (simp add: joint_histogram_def np_histogram2d_def np_range_def bin_edges_def in_bin_def py_get_def
        Let_def upt_rec del: sum_list_eq_0_iff)
  have cr: "compute_rotamer_rotamer_histogram [[1 / 4, 1 / 4]] [0] [1] (149 / 250) 7 0 1 2 =
     Inr ([[- (149 / 125) * ln 4, 7], [7, 7]], [0, 1 / 2, 1], [0, 1 / 2, 1])"
    by (simp add: compute_rotamer_rotamer_histogram_def jh free_energy_def mask_set_def mask_map_def
        mask_select_def Let_def abs_mult)
  have i: "(0::nat) < length [[4, 0], [0, 0::real]]" and j: "(0::nat) < length ([[4, 0], [0, 0::real]] ! 0)"
    and p: "(0::real) < [[4, 0], [0, 0]] ! 0 ! 0"
    by simp_all
  from nonzero_cells_shifted_by_abs_min[OF jh i j p, of "149 / 250" 7] jh cr
  show ?thesis by (simp add: energies_def abs_mult)
qed

end
